theory Spec2Isabelle
  imports Complex_Main
begin

section \<open>Machine model\<close>

text \<open>
  The repository holds three families of matrix-vector benchmarks: the C program
  \<^verbatim>\<open>Mv.c\<close> (and its C++ transcription \<^verbatim>\<open>hw1/Mv.cpp\<close>), the selector-driven
  \<^verbatim>\<open>hw1/hw1.cpp\<close>, and the five single-kernel programs of \<^verbatim>\<open>proj1/\<close>.

  Conventions of the embedding:
  \<^item> \<^verbatim>\<open>float\<close> and \<^verbatim>\<open>double\<close> values are real numbers: arithmetic is exact, so
    rounding and accumulation order are outside the model.
  \<^item> \<^verbatim>\<open>int\<close> is a 32-bit signed integer. Signed overflow is undefined in C and C++;
    every \<^verbatim>\<open>int\<close> operation whose result is not visibly inside the range is checked
    and yields the fault \<open>IntOverflow\<close>. (The loop increments \<^verbatim>\<open>++i\<close> and
    \<^verbatim>\<open>k += W\<close> run under a guard that bounds their result by \<open>n\<close>, and are not
    checked.)
  \<^item> A buffer is a list; reading or writing outside it is undefined in the source and
    is the fault \<open>OutOfBounds\<close> here. A \<^verbatim>\<open>float*\<close> that may be null is a
    \<open>real list option\<close>, and an access through \<open>None\<close> is the fault \<open>NullPointer\<close>.
  \<^item> A computation that can fault returns \<open>fault + 'a\<close>, with \<open>Inl\<close> for the fault.
\<close>

datatype fault = OutOfBounds | IntOverflow | NullPointer

type_synonym 'a res = "fault + 'a"

fun bind_res :: "'a res \<Rightarrow> ('a \<Rightarrow> 'b res) \<Rightarrow> 'b res" where
  "bind_res (Inl e) f = Inl e"
| "bind_res (Inr x) f = f x"

definition INT_MAX :: int where
  "INT_MAX = 2147483647"

definition INT_MIN :: int where
  "INT_MIN = - 2147483648"

definition chk :: "int \<Rightarrow> int res" where
  "chk v = (if INT_MIN \<le> v \<and> v \<le> INT_MAX then Inr v else Inl IntOverflow)"

definition rd :: "real list \<Rightarrow> int \<Rightarrow> real res" where
  "rd xs i = (if 0 \<le> i \<and> i < int (length xs) then Inr (xs ! nat i) else Inl OutOfBounds)"

definition wr :: "real list \<Rightarrow> int \<Rightarrow> real \<Rightarrow> real list res" where
  "wr xs i v = (if 0 \<le> i \<and> i < int (length xs) then Inr (xs[nat i := v]) else Inl OutOfBounds)"

text \<open>The index expression \<^verbatim>\<open>i * n + k\<close>, evaluated in \<^verbatim>\<open>int\<close>.\<close>

definition idx :: "int \<Rightarrow> int \<Rightarrow> int \<Rightarrow> int res" where
  "idx i n k = bind_res (chk (i * n)) (\<lambda>p. chk (p + k))"

subsection \<open>Loops\<close>

text \<open>\<^verbatim>\<open>for (; i < n; ++i) body\<close>, threading the state the body updates.\<close>

function for_up :: "int \<Rightarrow> int \<Rightarrow> (int \<Rightarrow> 's \<Rightarrow> 's res) \<Rightarrow> 's \<Rightarrow> 's res" where
  "for_up i n body s =
     (if i < n then
        (case body i s of
           Inl e \<Rightarrow> Inl e
         | Inr s' \<Rightarrow> for_up (i + 1) n body s')
      else Inr s)"
  by pat_completeness auto
termination
  by (relation "measure (\<lambda>(i, n, body, s). nat (n - i))") auto

declare for_up.simps [simp del]

text \<open>
  \<^verbatim>\<open>for (; k <= n - W; k += W) body\<close>; the loop variable is live after the loop, so
  it is returned with the state. \<open>W\<close> is a positive literal in every use (4 or 8); the
  guard \<open>0 < w\<close> only makes the recursion total for the other values of the parameter.
\<close>

function for_by :: "int \<Rightarrow> int \<Rightarrow> int \<Rightarrow> (int \<Rightarrow> 's \<Rightarrow> 's res) \<Rightarrow> 's \<Rightarrow> (int \<times> 's) res" where
  "for_by w k n body s =
     (case chk (n - w) of
        Inl e \<Rightarrow> Inl e
      | Inr hi \<Rightarrow>
          if 0 < w \<and> k \<le> hi then
            (case body k s of
               Inl e \<Rightarrow> Inl e
             | Inr s' \<Rightarrow> for_by w (k + w) n body s')
          else Inr (k, s))"
  by pat_completeness auto
termination
  by (relation "measure (\<lambda>(w, k, n, body, s). nat (n - k))")
     (auto simp: chk_def split: if_splits)

declare for_by.simps [simp del]

section \<open>Kernels\<close>

subsection \<open>Baseline: \<^verbatim>\<open>proj1/Mv.cpp\<close>\<close>

text \<open>The statement \<^verbatim>\<open>c[i] += A[i * n + k] * b[k]\<close>.\<close>

definition madd_step :: "int \<Rightarrow> real list \<Rightarrow> real list \<Rightarrow> int \<Rightarrow> int \<Rightarrow> real list \<Rightarrow> real list res" where
  "madd_step n A b i k c =
     bind_res (idx i n k) (\<lambda>q.
     bind_res (rd A q) (\<lambda>a.
     bind_res (rd b k) (\<lambda>bk.
     bind_res (rd c i) (\<lambda>ci.
       wr c i (ci + a * bk)))))"

definition Mv_mult :: "int \<Rightarrow> real list \<Rightarrow> real list \<Rightarrow> real list \<Rightarrow> real list res" where
  "Mv_mult n A b c =
     for_up 0 n (\<lambda>i c.
       bind_res (wr c i 0) (\<lambda>c.
         for_up 0 n (\<lambda>k c. madd_step n A b i k c) c)) c"

subsection \<open>Loop interchange: \<^verbatim>\<open>proj1/interchange.cpp\<close>, \<^verbatim>\<open>hw1/hw1.cpp\<close>\<close>

definition Mv_mult_interchanged :: "int \<Rightarrow> real list \<Rightarrow> real list \<Rightarrow> real list \<Rightarrow> real list res" where
  "Mv_mult_interchanged n A b c =
     bind_res (for_up 0 n (\<lambda>i c. wr c i 0) c) (\<lambda>c.
       for_up 0 n (\<lambda>k c.
         for_up 0 n (\<lambda>i c. madd_step n A b i k c) c) c)"

text \<open>The \<^verbatim>\<open>hw1.cpp\<close> version clears the whole vector with \<^verbatim>\<open>std::fill\<close>.\<close>

definition hw1_Mv_mult_interchanged :: "int \<Rightarrow> real list \<Rightarrow> real list \<Rightarrow> real list \<Rightarrow> real list res" where
  "hw1_Mv_mult_interchanged n A B C =
     for_up 0 n (\<lambda>k C.
       for_up 0 n (\<lambda>i C. madd_step n A B i k C) C) (replicate (length C) 0)"

subsection \<open>Manual unrolling: \<^verbatim>\<open>proj1/proj1/unroll.cpp\<close> (by 8), \<^verbatim>\<open>hw1/hw1.cpp\<close> (by 4)\<close>

text \<open>The product \<^verbatim>\<open>A[i * n + k] * b[k]\<close>.\<close>

definition term0 :: "int \<Rightarrow> real list \<Rightarrow> real list \<Rightarrow> int \<Rightarrow> int \<Rightarrow> real res" where
  "term0 n A b i k =
     bind_res (idx i n k) (\<lambda>q.
     bind_res (rd A q) (\<lambda>a.
     bind_res (rd b k) (\<lambda>bk.
       Inr (a * bk))))"

text \<open>The product \<^verbatim>\<open>A[i * n + k + d] * b[k + d]\<close>, for a literal \<open>d\<close>.\<close>

definition term_off :: "int \<Rightarrow> real list \<Rightarrow> real list \<Rightarrow> int \<Rightarrow> int \<Rightarrow> int \<Rightarrow> real res" where
  "term_off n A b i k d =
     bind_res (idx i n k) (\<lambda>q.
     bind_res (chk (q + d)) (\<lambda>q'.
     bind_res (rd A q') (\<lambda>a.
     bind_res (chk (k + d)) (\<lambda>k'.
     bind_res (rd b k') (\<lambda>bk.
       Inr (a * bk))))))"

text \<open>The remainder loop \<^verbatim>\<open>for (; k < n; ++k) sum += A[i * n + k] * b[k]\<close>.\<close>

definition tail_loop :: "int \<Rightarrow> real list \<Rightarrow> real list \<Rightarrow> int \<Rightarrow> int \<Rightarrow> real \<Rightarrow> real res" where
  "tail_loop n A b i k sum_acc =
     for_up k n (\<lambda>k sum_acc. bind_res (term0 n A b i k) (\<lambda>t. Inr (sum_acc + t))) sum_acc"

definition unroll8_body :: "int \<Rightarrow> real list \<Rightarrow> real list \<Rightarrow> int \<Rightarrow> int \<Rightarrow> real \<Rightarrow> real res" where
  "unroll8_body n A b i k sum_acc =
     bind_res (term0 n A b i k) (\<lambda>t0.
     bind_res (term_off n A b i k 1) (\<lambda>t1.
     bind_res (term_off n A b i k 2) (\<lambda>t2.
     bind_res (term_off n A b i k 3) (\<lambda>t3.
     bind_res (term_off n A b i k 4) (\<lambda>t4.
     bind_res (term_off n A b i k 5) (\<lambda>t5.
     bind_res (term_off n A b i k 6) (\<lambda>t6.
     bind_res (term_off n A b i k 7) (\<lambda>t7.
       Inr (sum_acc + (t0 + t1 + t2 + t3 + t4 + t5 + t6 + t7))))))))))"

definition Mv_mult_unrolled :: "int \<Rightarrow> real list \<Rightarrow> real list \<Rightarrow> real list \<Rightarrow> real list res" where
  "Mv_mult_unrolled n A b c =
     for_up 0 n (\<lambda>i c.
       bind_res (for_by 8 0 n (unroll8_body n A b i) 0) (\<lambda>(k, sum_acc).
       bind_res (tail_loop n A b i k sum_acc) (\<lambda>sum_acc.
         wr c i sum_acc))) c"

definition unroll4_body :: "int \<Rightarrow> real list \<Rightarrow> real list \<Rightarrow> int \<Rightarrow> int \<Rightarrow> real \<Rightarrow> real res" where
  "unroll4_body n A B i k sum_acc =
     bind_res (term0 n A B i k) (\<lambda>t0.
     bind_res (term_off n A B i k 1) (\<lambda>t1.
     bind_res (term_off n A B i k 2) (\<lambda>t2.
     bind_res (term_off n A B i k 3) (\<lambda>t3.
       Inr (sum_acc + t0 + t1 + t2 + t3)))))"

definition hw1_Mv_mult_unrolled :: "int \<Rightarrow> real list \<Rightarrow> real list \<Rightarrow> real list \<Rightarrow> real list res" where
  "hw1_Mv_mult_unrolled n A B C =
     for_up 0 n (\<lambda>i C.
       bind_res (for_by 4 0 n (unroll4_body n A B i) 0) (\<lambda>(k, sum_acc).
       bind_res (tail_loop n A B i k sum_acc) (\<lambda>sum_acc.
         wr C i sum_acc))) C"

subsection \<open>AVX2: \<^verbatim>\<open>proj1/avx2.cpp\<close>, \<^verbatim>\<open>proj1/optimized.cpp\<close> (4 lanes), \<^verbatim>\<open>hw1/hw1.cpp\<close> (8 lanes)\<close>

text \<open>
  A vector register is the list of its lanes. \<^verbatim>\<open>_mm256_loadu_pd(&xs[q])\<close> reads the
  \<open>L\<close> elements from index \<open>q\<close>; the address is formed from the \<^verbatim>\<open>int\<close> index, the
  lanes behind it are reached by the load itself.
\<close>

definition mm256_setzero :: "nat \<Rightarrow> real list" where
  "mm256_setzero L = replicate L 0"

definition mm256_loadu :: "nat \<Rightarrow> real list \<Rightarrow> int \<Rightarrow> real list res" where
  "mm256_loadu L xs q =
     (if 0 \<le> q \<and> nat q + L \<le> length xs then Inr (take L (drop (nat q) xs))
      else Inl OutOfBounds)"

definition mm256_fmadd :: "real list \<Rightarrow> real list \<Rightarrow> real list \<Rightarrow> real list" where
  "mm256_fmadd a b c = map (\<lambda>(x, y, z). x * y + z) (zip a (zip b c))"

definition avx_body :: "nat \<Rightarrow> int \<Rightarrow> real list \<Rightarrow> real list \<Rightarrow> int \<Rightarrow> int \<Rightarrow> real list \<Rightarrow> real list res" where
  "avx_body L n A b i k c_vec =
     bind_res (idx i n k) (\<lambda>q.
     bind_res (mm256_loadu L A q) (\<lambda>a_vec.
     bind_res (mm256_loadu L b k) (\<lambda>b_vec.
       Inr (mm256_fmadd a_vec b_vec c_vec))))"

definition Mv_mult_optimized :: "int \<Rightarrow> real list \<Rightarrow> real list \<Rightarrow> real list \<Rightarrow> real list res" where
  "Mv_mult_optimized n A b c =
     for_up 0 n (\<lambda>i c.
       bind_res (for_by 4 0 n (avx_body 4 n A b i) (mm256_setzero 4)) (\<lambda>(k, c_sum_array).
       bind_res (tail_loop n A b i k
                   (c_sum_array ! 0 + c_sum_array ! 1 + c_sum_array ! 2 + c_sum_array ! 3)) (\<lambda>sum_acc.
         wr c i sum_acc))) c"

definition Mv_mult_avx2 :: "int \<Rightarrow> real list \<Rightarrow> real list \<Rightarrow> real list \<Rightarrow> real list res" where
  "Mv_mult_avx2 n A B C =
     for_up 0 n (\<lambda>i C.
       bind_res (for_by 8 0 n (avx_body 8 n A B i) (mm256_setzero 8)) (\<lambda>(k, c_sum_array).
       bind_res (tail_loop n A B i k
                   (c_sum_array ! 0 + c_sum_array ! 1 + c_sum_array ! 2 + c_sum_array ! 3 +
                    c_sum_array ! 4 + c_sum_array ! 5 + c_sum_array ! 6 + c_sum_array ! 7)) (\<lambda>sum_acc.
         wr C i sum_acc))) C"

subsection \<open>The C kernel: \<^verbatim>\<open>Mv.c\<close>, \<^verbatim>\<open>hw1/Mv.cpp\<close>\<close>

text \<open>
  \<^verbatim>\<open>typedef float* Matrix\<close>: a pointer to a buffer, or null.
\<close>

type_synonym Matrix = "real list option"

definition rd_p :: "Matrix \<Rightarrow> int \<Rightarrow> real res" where
  "rd_p M i = (case M of None \<Rightarrow> Inl NullPointer | Some xs \<Rightarrow> rd xs i)"

definition wr_p :: "Matrix \<Rightarrow> int \<Rightarrow> real \<Rightarrow> Matrix res" where
  "wr_p M i v =
     (case M of
        None \<Rightarrow> Inl NullPointer
      | Some xs \<Rightarrow> bind_res (wr xs i v) (\<lambda>xs'. Inr (Some xs')))"

text \<open>
  \<^verbatim>\<open>memset(M, 0, cnt * sizeof(M[0]))\<close> for an \<^verbatim>\<open>int\<close> count: the product is formed in
  \<^verbatim>\<open>size_t\<close>, so a negative count is a size beyond every buffer.
\<close>

definition memset0 :: "Matrix \<Rightarrow> int \<Rightarrow> Matrix res" where
  "memset0 M cnt =
     (case M of
        None \<Rightarrow> Inl NullPointer
      | Some xs \<Rightarrow>
          if 0 \<le> cnt \<and> cnt \<le> int (length xs)
          then Inr (Some (replicate (nat cnt) 0 @ drop (nat cnt) xs))
          else Inl OutOfBounds)"

text \<open>The statement \<^verbatim>\<open>C[i] += A[i*ACols+k]*B[k]\<close>.\<close>

definition madd_step_p :: "int \<Rightarrow> Matrix \<Rightarrow> Matrix \<Rightarrow> int \<Rightarrow> int \<Rightarrow> Matrix \<Rightarrow> Matrix res" where
  "madd_step_p ACols A B i k C =
     bind_res (idx i ACols k) (\<lambda>q.
     bind_res (rd_p A q) (\<lambda>a.
     bind_res (rd_p B k) (\<lambda>bk.
     bind_res (rd_p C i) (\<lambda>ci.
       wr_p C i (ci + a * bk)))))"

definition MatVecMult :: "Matrix \<Rightarrow> Matrix \<Rightarrow> Matrix \<Rightarrow> int \<Rightarrow> int \<Rightarrow> Matrix res" where
  "MatVecMult A B C ARows ACols =
     bind_res (memset0 C ARows) (\<lambda>C.
       for_up 0 ACols (\<lambda>k C.
         for_up 0 ARows (\<lambda>i C. madd_step_p ACols A B i k C) C) C)"

section \<open>Harnesses\<close>

subsection \<open>Environment and outcome\<close>

text \<open>
  What a run does not control: whether the \<open>k\<close>-th allocation succeeds, what a fresh
  \<^verbatim>\<open>malloc\<close> block holds, what the timer reads on its \<open>k\<close>-th call, and what
  \<^verbatim>\<open>get_microtime_resolution\<close> of the absent \<^verbatim>\<open>microtime.h\<close> returns.
\<close>

record env =
  alloc_ok :: "nat \<Rightarrow> bool"
  junk :: "nat \<Rightarrow> real"
  clock :: "nat \<Rightarrow> real"
  resolution :: real

text \<open>
  A printed floating-point value is finite, or what a division by zero leaves
  (\<^verbatim>\<open>inf\<close> or \<^verbatim>\<open>nan\<close>).
\<close>

datatype fval = Finite real | NonFinite

definition fdiv :: "real \<Rightarrow> real \<Rightarrow> fval" where
  "fdiv x y = (if y = 0 then NonFinite else Finite (x / y))"

datatype item = Str string | Val fval | IntVal int | Tab | Endl

text \<open>
  A run ends with an exit status, in undefined behaviour (the fault that the model
  meets), or in \<^verbatim>\<open>std::terminate\<close> after an exception nobody catches.
\<close>

datatype exn = LengthError | BadAlloc

datatype ending = Exit int | Undefined fault | Terminate exn

record outcome =
  out :: "item list"
  err :: "item list"
  ending :: ending

subsection \<open>The C library\<close>

text \<open>
  Modelled from the C standard: \<^verbatim>\<open>atoi\<close> is not code of the repository. It skips
  white space, reads an optional sign and the decimal digits that follow, and yields 0
  when there are none; a value outside \<^verbatim>\<open>int\<close> is undefined.
\<close>

definition isspace :: "char \<Rightarrow> bool" where
  "isspace c \<longleftrightarrow> (of_char c :: nat) = 32 \<or> (9 \<le> (of_char c :: nat) \<and> (of_char c :: nat) \<le> 13)"

definition isdigit :: "char \<Rightarrow> bool" where
  "isdigit c \<longleftrightarrow> 48 \<le> (of_char c :: nat) \<and> (of_char c :: nat) \<le> 57"

fun digits_value :: "string \<Rightarrow> int \<Rightarrow> int" where
  "digits_value [] v = v"
| "digits_value (c # cs) v =
     (if isdigit c then digits_value cs (10 * v + (of_char c - 48)) else v)"

definition atoi :: "string \<Rightarrow> int res" where
  "atoi s =
     (case dropWhile isspace s of
        [] \<Rightarrow> Inr 0
      | c # cs \<Rightarrow>
          if c = CHR ''-'' then chk (- digits_value cs 0)
          else if c = CHR ''+'' then chk (digits_value cs 0)
          else chk (digits_value (c # cs) 0))"

text \<open>Integer division of C, which truncates towards zero.\<close>

definition c_div :: "int \<Rightarrow> int \<Rightarrow> int" where
  "c_div a b = sgn a * sgn b * (\<bar>a\<bar> div \<bar>b\<bar>)"

text \<open>\<^verbatim>\<open>argv[0]\<close>, the name the program was started under.\<close>

definition prog_name :: "string list \<Rightarrow> string" where
  "prog_name argv = (case argv of [] \<Rightarrow> [] | p # _ \<Rightarrow> p)"

subsection \<open>\<^verbatim>\<open>Mv.c\<close>\<close>

text \<open>
  \<^verbatim>\<open>CreateMatrix\<close>: the byte count \<^verbatim>\<open>Rows*Cols*sizeof(M[0])\<close> is formed from the
  \<^verbatim>\<open>int\<close> product, so a negative product asks for more than any allocator grants.
  On failure the function reports and returns the null pointer.
\<close>

definition allocation_report :: "item list" where
  "allocation_report =
     [Str ''Matrix allocation failed in file '', Str ''Mv.c'', Str '', line '', IntVal 16, Endl]"

definition CreateMatrix :: "env \<Rightarrow> nat \<Rightarrow> int \<Rightarrow> int \<Rightarrow> (Matrix \<times> item list) res" where
  "CreateMatrix e k Rows Cols =
     bind_res (chk (Rows * Cols)) (\<lambda>cnt.
       if 0 \<le> cnt \<and> alloc_ok e k then Inr (Some (map (junk e) [0..<nat cnt]), [])
       else Inr (None, allocation_report))"

definition InitMatrix :: "Matrix \<Rightarrow> int \<Rightarrow> int \<Rightarrow> Matrix res" where
  "InitMatrix A Rows Cols =
     for_up 0 Rows (\<lambda>i A.
       for_up 0 Cols (\<lambda>j A.
         bind_res (idx i Cols j) (\<lambda>q.
         bind_res (chk (i + j)) (\<lambda>ij.
         bind_res (chk (ij + 2)) (\<lambda>d.
           wr_p A q (1 / real_of_int d))))) A) A"

definition failed :: "item list \<Rightarrow> item list \<Rightarrow> fault \<Rightarrow> outcome" where
  "failed os es f = \<lparr>out = os, err = es, ending = Undefined f\<rparr>"

definition report_line :: "real \<Rightarrow> real \<Rightarrow> int \<Rightarrow> item list" where
  "report_line t r N =
     [Endl, Str ''Time = '', Val (Finite t), Str '' us'', Tab,
      Str ''Timer Resolution = '', Val (Finite r), Str '' us'', Tab,
      Str ''Performance = '', Val (fdiv (2 * real_of_int N * real_of_int N * (1 / 1000)) t),
      Str '' Gflop/s'', Endl]"

definition sample_line :: "real \<Rightarrow> item list" where
  "sample_line v = [Str ''C[N/2] = '', Val (Finite v), Endl, Endl]"

definition Mv_c_main :: "env \<Rightarrow> string list \<Rightarrow> outcome" where
  "Mv_c_main e argv =
     (if length argv \<noteq> 2 then
        \<lparr>out = [], err = [Str ''USAGE: '', Str (prog_name argv), Str '' Matrix-Dimension'', Endl],
         ending = Exit 1\<rparr>
      else
        case atoi (argv ! 1) of
          Inl f \<Rightarrow> failed [] [] f
        | Inr N \<Rightarrow>
        (case CreateMatrix e 0 N N of
          Inl f \<Rightarrow> failed [] [] f
        | Inr (A, m1) \<Rightarrow>
        (case CreateMatrix e 1 N 1 of
          Inl f \<Rightarrow> failed [] m1 f
        | Inr (B, m2) \<Rightarrow>
        (case CreateMatrix e 2 N 1 of
          Inl f \<Rightarrow> failed [] (m1 @ m2) f
        | Inr (C, m3) \<Rightarrow>
        (case bind_res (InitMatrix A N N) (\<lambda>A.
              bind_res (InitMatrix B N 1) (\<lambda>B.
              bind_res (chk (N * 1)) (\<lambda>cnt.
              bind_res (memset0 C cnt) (\<lambda>C.
                MatVecMult A B C N N)))) of
          Inl f \<Rightarrow> failed [] (m1 @ m2 @ m3) f
        | Inr C \<Rightarrow>
        (case rd_p C (c_div N 2) of
          Inl f \<Rightarrow> failed (report_line (clock e 1 - clock e 0) (resolution e) N) (m1 @ m2 @ m3) f
        | Inr v \<Rightarrow>
            \<lparr>out = report_line (clock e 1 - clock e 0) (resolution e) N @ sample_line v,
             err = m1 @ m2 @ m3, ending = Exit 0\<rparr>))))))"

definition fair_env :: env where
  "fair_env = \<lparr>alloc_ok = (\<lambda>k. True), junk = (\<lambda>k. 0), clock = (\<lambda>k. 100 * real k),
                resolution = 1\<rparr>"


subsection \<open>\<^verbatim>\<open>hw1/hw1.cpp\<close>\<close>

text \<open>
  \<^verbatim>\<open>std::vector<T> v(sz)\<close> for an \<^verbatim>\<open>int\<close> size: a negative size converts to a
  \<^verbatim>\<open>size_t\<close> beyond \<^verbatim>\<open>max_size()\<close> and throws \<^verbatim>\<open>std::length_error\<close>; a failed
  allocation throws \<^verbatim>\<open>std::bad_alloc\<close>; otherwise the elements are zero.
\<close>

definition vector_new :: "env \<Rightarrow> nat \<Rightarrow> int \<Rightarrow> exn + real list" where
  "vector_new e k sz =
     (if sz < 0 then Inl LengthError
      else if alloc_ok e k then Inr (replicate (nat sz) 0)
      else Inl BadAlloc)"

definition apostrophe :: string where
  "apostrophe = [CHR 0x27]"

definition print_usage :: "string \<Rightarrow> item list" where
  "print_usage prog =
     [Str ''Usage: '', Str prog, Str '' [optimization_type] <matrix_size_n>'', Endl,
      Str ''  <optimization_type> is optional and defaults to '', Str apostrophe, Str ''avx2'',
      Str apostrophe, Str ''.'', Endl,
      Str ''Optimization types:'', Endl,
      Str ''  baseline    - Standard i-k loop implementation'', Endl,
      Str ''  avx2        - AVX2 SIMD optimization'', Endl,
      Str ''  unroll      - Loop unrolling optimization'', Endl,
      Str ''  interchange - Loop interchange (demonstrates cache effects)'', Endl]"

text \<open>
  The generator of \<^verbatim>\<open>hw1.cpp\<close>: \<^verbatim>\<open>B[i] = 1.0f / (i + 2.0f)\<close> and
  \<^verbatim>\<open>A[i * n + j] = 1.0f / (i + j + 2.0f)\<close>.
\<close>

definition hw1_generate :: "int \<Rightarrow> real list \<Rightarrow> real list \<Rightarrow> (real list \<times> real list) res" where
  "hw1_generate n A B =
     for_up 0 n (\<lambda>i (A, B).
       bind_res (wr B i (1 / (real_of_int i + 2))) (\<lambda>B.
       bind_res (for_up 0 n (\<lambda>j A.
                   bind_res (idx i n j) (\<lambda>q.
                   bind_res (chk (i + j)) (\<lambda>ij.
                     wr A q (1 / (real_of_int ij + 2))))) A) (\<lambda>A.
         Inr (A, B)))) (A, B)"

text \<open>The selection chain of \<^verbatim>\<open>main\<close>: the variant to run, if the name is one it tests for.\<close>

definition hw1_select :: "string \<Rightarrow> (int \<Rightarrow> real list \<Rightarrow> real list \<Rightarrow> real list \<Rightarrow> real list res) option" where
  "hw1_select opt_type =
     (if opt_type = ''avx2'' then Some Mv_mult_avx2
      else if opt_type = ''unroll'' then Some hw1_Mv_mult_unrolled
      else if opt_type = ''interchange'' then Some hw1_Mv_mult_interchanged
      else None)"

definition hw1_run :: "env \<Rightarrow> string list \<Rightarrow> string \<Rightarrow> int res \<Rightarrow> outcome" where
  "hw1_run e argv opt_type n_res =
     (case n_res of
        Inl f \<Rightarrow> failed [] [] f
      | Inr n \<Rightarrow>
      (case chk (n * n) of
        Inl f \<Rightarrow> failed [] [] f
      | Inr nn \<Rightarrow>
      (case vector_new e 0 nn of
        Inl x \<Rightarrow> \<lparr>out = [], err = [], ending = Terminate x\<rparr>
      | Inr A \<Rightarrow>
      (case vector_new e 1 n of
        Inl x \<Rightarrow> \<lparr>out = [], err = [], ending = Terminate x\<rparr>
      | Inr B \<Rightarrow>
      (case vector_new e 2 n of
        Inl x \<Rightarrow> \<lparr>out = [], err = [], ending = Terminate x\<rparr>
      | Inr C \<Rightarrow>
      (case hw1_generate n A B of
        Inl f \<Rightarrow> failed [] [] f
      | Inr (A, B) \<Rightarrow>
      (case hw1_select opt_type of
        None \<Rightarrow>
          \<lparr>out = [],
           err = [Str ''Error: Unknown optimization type '', Str apostrophe, Str opt_type,
                  Str apostrophe, Endl] @ print_usage (prog_name argv),
           ending = Exit 1\<rparr>
      | Some variant \<Rightarrow>
      (case variant n A B C of
        Inl f \<Rightarrow> failed [] [] f
      | Inr C \<Rightarrow>
      (case rd C (c_div n 2) of
        Inl f \<Rightarrow> failed (report_line (clock e 1 - clock e 0) 1 n) [] f
      | Inr v \<Rightarrow>
          \<lparr>out = report_line (clock e 1 - clock e 0) 1 n @ sample_line v,
           err = [], ending = Exit 0\<rparr>)))))))))"

definition hw1_main :: "env \<Rightarrow> string list \<Rightarrow> outcome" where
  "hw1_main e argv =
     (if length argv = 2 then hw1_run e argv ''avx2'' (atoi (argv ! 1))
      else if length argv = 3 then hw1_run e argv (argv ! 1) (atoi (argv ! 2))
      else \<lparr>out = [], err = print_usage (prog_name argv), ending = Exit 1\<rparr>)"

subsection \<open>The programs of \<^verbatim>\<open>proj1/\<close>\<close>

text \<open>
  The five programs (\<^verbatim>\<open>Mv.cpp\<close>, \<^verbatim>\<open>interchange.cpp\<close>, \<^verbatim>\<open>proj1/unroll.cpp\<close>,
  \<^verbatim>\<open>avx2.cpp\<close>, \<^verbatim>\<open>optimized.cpp\<close>) share their \<^verbatim>\<open>main\<close> but for the variant they
  call. The generator: \<^verbatim>\<open>b[i] = 1.0 / (i + 1.0)\<close> and
  \<^verbatim>\<open>A[i * n + j] = 1.0 / (i + j + 2.0)\<close>.
\<close>

definition proj1_generate :: "int \<Rightarrow> real list \<Rightarrow> real list \<Rightarrow> (real list \<times> real list) res" where
  "proj1_generate n A b =
     for_up 0 n (\<lambda>i (A, b).
       bind_res (wr b i (1 / (real_of_int i + 1))) (\<lambda>b.
       bind_res (for_up 0 n (\<lambda>j A.
                   bind_res (idx i n j) (\<lambda>q.
                   bind_res (chk (i + j)) (\<lambda>ij.
                     wr A q (1 / (real_of_int ij + 2))))) A) (\<lambda>A.
         Inr (A, b)))) (A, b)"

text \<open>The checksum loop \<^verbatim>\<open>for(int i = 0; i < n; ++i) sum_c += c[i]\<close>.\<close>

definition checksum_loop :: "int \<Rightarrow> real list \<Rightarrow> real res" where
  "checksum_loop n c =
     for_up 0 n (\<lambda>i sum_c. bind_res (rd c i) (\<lambda>ci. Inr (sum_c + ci))) 0"

definition proj1_main ::
  "(int \<Rightarrow> real list \<Rightarrow> real list \<Rightarrow> real list \<Rightarrow> real list res) \<Rightarrow> env \<Rightarrow> string list \<Rightarrow> outcome" where
  "proj1_main variant e argv =
     (if length argv \<noteq> 2 then
        \<lparr>out = [], err = [Str ''Usage: '', Str (prog_name argv), Str '' <matrix_size_n>'', Endl],
         ending = Exit 1\<rparr>
      else
        case atoi (argv ! 1) of
          Inl f \<Rightarrow> failed [] [] f
        | Inr n \<Rightarrow>
          if n \<le> 0 then
            \<lparr>out = [], err = [Str ''Matrix size must be a positive integer.'', Endl],
             ending = Exit 1\<rparr>
          else
      (case chk (n * n) of
        Inl f \<Rightarrow> failed [] [] f
      | Inr nn \<Rightarrow>
      (case vector_new e 0 nn of
        Inl x \<Rightarrow> \<lparr>out = [], err = [], ending = Terminate x\<rparr>
      | Inr A \<Rightarrow>
      (case vector_new e 1 n of
        Inl x \<Rightarrow> \<lparr>out = [], err = [], ending = Terminate x\<rparr>
      | Inr b \<Rightarrow>
      (case vector_new e 2 n of
        Inl x \<Rightarrow> \<lparr>out = [], err = [], ending = Terminate x\<rparr>
      | Inr c \<Rightarrow>
      (case bind_res (proj1_generate n A b) (\<lambda>(A, b). variant n A b c) of
        Inl f \<Rightarrow> failed [] [] f
      | Inr c \<Rightarrow>
      (case checksum_loop n c of
        Inl f \<Rightarrow>
          failed [Str ''n = '', IntVal n, Endl,
                  Str ''Execution time: '', Val (Finite (clock e 1 - clock e 0)), Str '' seconds'', Endl]
            [] f
      | Inr sum_c \<Rightarrow>
          \<lparr>out = [Str ''n = '', IntVal n, Endl,
                  Str ''Execution time: '', Val (Finite (clock e 1 - clock e 0)), Str '' seconds'', Endl,
                  Str ''Checksum (sum of c elements): '', Val (Finite sum_c), Endl],
           err = [], ending = Exit 0\<rparr>)))))))"

subsection \<open>Reading past the end of a block\<close>



subsection \<open>The reported checksum\<close>



section \<open>Specification\<close>

subsection \<open>The specification of the product\<close>

text \<open>
  What every kernel is to compute, in the words of the specification:
  \<open>c[i] = \<Sum>\<^sub>k A[i * N + k] * b[k]\<close> for \<open>i\<close> in \<open>[0, N)\<close>.
\<close>

definition spec_dot :: "nat \<Rightarrow> real list \<Rightarrow> real list \<Rightarrow> nat \<Rightarrow> real" where
  "spec_dot N A b i = (\<Sum>k = 0..<N. A ! (i * N + k) * b ! k)"

definition spec_mv :: "nat \<Rightarrow> real list \<Rightarrow> real list \<Rightarrow> real list" where
  "spec_mv N A b = map (spec_dot N A b) [0..<N]"

text \<open>
  What the generators are to produce: \<open>A[i][j] = 1 / (i + j + 2)\<close> in row-major order,
  and \<open>b[i] = 1 / (i + 1)\<close> or \<open>b[i] = 1 / (i + 2)\<close>.
\<close>

definition spec_A :: "nat \<Rightarrow> real list" where
  "spec_A N = map (\<lambda>q. 1 / (real (q div N) + real (q mod N) + 2)) [0..<N * N]"

definition spec_b1 :: "nat \<Rightarrow> real list" where
  "spec_b1 N = map (\<lambda>i. 1 / (real i + 1)) [0..<N]"

definition spec_b2 :: "nat \<Rightarrow> real list" where
  "spec_b2 N = map (\<lambda>i. 1 / (real i + 2)) [0..<N]"

text \<open>The terms \<open>lo \<le> j < hi\<close> of the inner product of the row that starts at offset \<open>p\<close>.\<close>

definition rsum :: "real list \<Rightarrow> real list \<Rightarrow> nat \<Rightarrow> nat \<Rightarrow> nat \<Rightarrow> real" where
  "rsum A b p lo hi = (\<Sum>j = lo..<hi. A ! (p + j) * b ! j)"

text \<open>
  The shape the harnesses give the kernels: \<open>n\<close> is a non-negative \<^verbatim>\<open>int\<close>,
  \<open>A\<close> holds \<open>n * n\<close> elements, \<open>b\<close> and \<open>c\<close> hold \<open>n\<close>.
\<close>

definition shaped :: "int \<Rightarrow> real list \<Rightarrow> real list \<Rightarrow> real list \<Rightarrow> bool" where
  "shaped n A b c \<longleftrightarrow>
     0 \<le> n \<and> n \<le> INT_MAX \<and> int (length A) = n * n \<and> int (length b) = n \<and> int (length c) = n"

section \<open>Properties of the machine model\<close>

lemma bind_res_Inr_iff:
  "bind_res m f = Inr y \<longleftrightarrow> (\<exists>x. m = Inr x \<and> f x = Inr y)"
  by (cases m) auto

subsection \<open>Loop rules\<close>

lemma for_up_rule:
  assumes "P i s"
    and "\<And>j t. i \<le> j \<Longrightarrow> j < n \<Longrightarrow> P j t \<Longrightarrow>
           (case body j t of Inl e \<Rightarrow> Q e | Inr t' \<Rightarrow> P (j + 1) t')"
  shows "case for_up i n body s of Inl e \<Rightarrow> Q e | Inr t \<Rightarrow> P (max i n) t"
  using assms
proof (induction "nat (n - i)" arbitrary: i s)
  case 0
  then show ?case by (subst for_up.simps) (simp add: max_def)
next
  case (Suc m)
  then have lt: "i < n" by linarith
  have step: "case body i s of Inl e \<Rightarrow> Q e | Inr t' \<Rightarrow> P (i + 1) t'"
    using Suc.prems(2) [of i s] lt Suc.prems(1) by simp
  show ?case
  proof (cases "body i s")
    case (Inl e)
    with step lt show ?thesis by (subst for_up.simps) simp
  next
    case (Inr t')
    with step have P': "P (i + 1) t'" by simp
    have m: "m = nat (n - (i + 1))" using Suc.hyps(2) by linarith
    have "case for_up (i + 1) n body t' of Inl e \<Rightarrow> Q e | Inr t \<Rightarrow> P (max (i + 1) n) t"
      by (rule Suc.hyps(1) [OF m P']) (use Suc.prems(2) in auto)
    moreover have "max (i + 1) n = max i n" using lt by simp
    ultimately show ?thesis using Inr lt by (subst for_up.simps) (simp split: sum.splits)
  qed
qed

lemma for_by_rule:
  assumes "0 < w" and "INT_MIN \<le> n - w" and "n - w \<le> INT_MAX"
    and "P k s"
    and "\<And>j t. k \<le> j \<Longrightarrow> j + w \<le> n \<Longrightarrow> (j - k) mod w = 0 \<Longrightarrow> P j t \<Longrightarrow>
           (case body j t of Inl e \<Rightarrow> Q e | Inr t' \<Rightarrow> P (j + w) t')"
  shows "case for_by w k n body s of
           Inl e \<Rightarrow> Q e
         | Inr (k', t) \<Rightarrow> P k' t \<and> k \<le> k' \<and> n - w < k' \<and> (k' - k) mod w = 0 \<and> (k \<le> n \<longrightarrow> k' \<le> n)"
  using assms(4,5)
proof (induction "nat (n - k)" arbitrary: k s rule: less_induct)
  case less
  have c: "chk (n - w) = Inr (n - w)" using assms(2,3) by (simp add: chk_def)
  show ?case
  proof (cases "k \<le> n - w")
    case False
    then show ?thesis using c less.prems(1) assms(1) by (subst for_by.simps) simp
  next
    case True
    have step: "case body k s of Inl e \<Rightarrow> Q e | Inr t' \<Rightarrow> P (k + w) t'"
      using less.prems(2) [of k s] True less.prems(1) by simp
    show ?thesis
    proof (cases "body k s")
      case (Inl e)
      with step True c assms(1) show ?thesis by (subst for_by.simps) simp
    next
      case (Inr t')
      with step have P': "P (k + w) t'" by simp
      have m: "nat (n - (k + w)) < nat (n - k)" using True assms(1) by linarith
      have ih: "case for_by w (k + w) n body t' of
           Inl e \<Rightarrow> Q e
         | Inr (k', t) \<Rightarrow> P k' t \<and> k + w \<le> k' \<and> n - w < k' \<and> (k' - (k + w)) mod w = 0 \<and> (k + w \<le> n \<longrightarrow> k' \<le> n)"
      proof (rule less.hyps [OF m P'])
        fix j t
        assume j: "k + w \<le> j" "j + w \<le> n" "(j - (k + w)) mod w = 0" "P j t"
        have "(j - (k + w)) mod w = (j - k) mod w"
          by (simp add: algebra_simps mod_diff_eq flip: diff_diff_eq)
        with j assms(1) show "case body j t of Inl e \<Rightarrow> Q e | Inr t' \<Rightarrow> P (j + w) t'"
          by (intro less.prems(2)) auto
      qed
      have eq: "for_by w k n body s = for_by w (k + w) n body t'"
        using Inr True c assms(1) by (subst for_by.simps) simp
      show ?thesis
      proof (cases "for_by w (k + w) n body t'")
        case (Inl e)
        with ih eq show ?thesis by simp
      next
        case (Inr r)
        obtain k' t where r: "r = (k', t)" by (cases r)
        have "(k' - (k + w)) mod w = (k' - k) mod w"
          by (simp add: algebra_simps mod_diff_eq flip: diff_diff_eq)
        with ih eq Inr r True assms(1) show ?thesis by auto
      qed
    qed
  qed
qed

subsection \<open>Rows\<close>

lemma rsum_empty [simp]: "rsum A b p lo lo = 0"
  by (simp add: rsum_def)

lemma rsum_Suc: "lo \<le> hi \<Longrightarrow> rsum A b p lo (Suc hi) = rsum A b p lo hi + A ! (p + hi) * b ! hi"
  by (simp add: rsum_def)

lemma rsum_concat: "lo \<le> mid \<Longrightarrow> mid \<le> hi \<Longrightarrow> rsum A b p lo mid + rsum A b p mid hi = rsum A b p lo hi"
  unfolding rsum_def by (rule sum.atLeastLessThan_concat)

lemma term0_eq:
  assumes "0 \<le> i * n" and "i * n + n \<le> int (length A)" and "0 \<le> k" and "k < n"
    and "n \<le> int (length b)"
  shows "term0 n A b i k =
           (if i * n + k \<le> INT_MAX then Inr (A ! (nat (i * n) + nat k) * b ! nat k)
            else Inl IntOverflow)"
  using assms
  by (auto simp: term0_def idx_def chk_def rd_def INT_MIN_def INT_MAX_def nat_add_distrib)

lemma term_off_eq:
  assumes "0 \<le> i * n" and "i * n + n \<le> int (length A)" and "0 \<le> k" and "0 \<le> d" and "k + d < n"
    and "n \<le> int (length b)" and "n \<le> INT_MAX"
  shows "term_off n A b i k d =
           (if i * n + k + d \<le> INT_MAX then Inr (A ! (nat (i * n) + nat k + nat d) * b ! (nat k + nat d))
            else Inl IntOverflow)"
  using assms
  by (auto simp: term_off_def idx_def chk_def rd_def INT_MIN_def INT_MAX_def nat_add_distrib)

lemma tail_loop_eq:
  assumes "0 \<le> i * n" and "i * n + n \<le> int (length A)" and "0 \<le> k" and "k \<le> n"
    and "n \<le> int (length b)"
  shows "tail_loop n A b i k s =
           (if k < n \<and> INT_MAX < i * n + n - 1 then Inl IntOverflow
            else Inr (s + rsum A b (nat (i * n)) (nat k) (nat n)))"
proof -
  define P where "P = (\<lambda>j t. k \<le> j \<and> j \<le> n \<and> t = s + rsum A b (nat (i * n)) (nat k) (nat j)
                        \<and> (k < j \<longrightarrow> i * n + j - 1 \<le> INT_MAX))"
  define Q where "Q = (\<lambda>e. e = IntOverflow \<and> k < n \<and> INT_MAX < i * n + n - 1)"
  have "case tail_loop n A b i k s of Inl e \<Rightarrow> Q e | Inr t \<Rightarrow> P (max k n) t"
    unfolding tail_loop_def
  proof (rule for_up_rule)
    show "P k s" using assms by (simp add: P_def)
  next
    fix j t
    assume j: "k \<le> j" "j < n" "P j t"
    have "nat (j + 1) = Suc (nat j)" using j assms by simp
    then show "case bind_res (term0 n A b i j) (\<lambda>ta. Inr (t + ta)) of
                 Inl e \<Rightarrow> Q e | Inr t' \<Rightarrow> P (j + 1) t'"
      using j assms by (auto simp: term0_eq P_def Q_def rsum_Suc)
  qed
  then show ?thesis using assms
    by (auto simp: P_def Q_def max_def split: sum.splits)
qed

lemma rsum_4: "rsum A b p lo (lo + 4) =
    A ! (p + lo) * b ! lo + A ! (p + lo + 1) * b ! (lo + 1) + A ! (p + lo + 2) * b ! (lo + 2)
    + A ! (p + lo + 3) * b ! (lo + 3)"
  by (simp add: rsum_def numeral_eq_Suc sum.atLeastLessThan_Suc add.assoc)

lemma rsum_8: "rsum A b p lo (lo + 8) =
    A ! (p + lo) * b ! lo + A ! (p + lo + 1) * b ! (lo + 1) + A ! (p + lo + 2) * b ! (lo + 2)
    + A ! (p + lo + 3) * b ! (lo + 3) + A ! (p + lo + 4) * b ! (lo + 4) + A ! (p + lo + 5) * b ! (lo + 5)
    + A ! (p + lo + 6) * b ! (lo + 6) + A ! (p + lo + 7) * b ! (lo + 7)"
  by (simp add: rsum_def numeral_eq_Suc sum.atLeastLessThan_Suc add.assoc)

lemma unroll4_body_eq:
  assumes "0 \<le> i * n" and "i * n + n \<le> int (length A)" and "0 \<le> k" and "k + 4 \<le> n"
    and "n \<le> int (length b)" and "n \<le> INT_MAX"
  shows "unroll4_body n A b i k s =
           (if i * n + k + 3 \<le> INT_MAX then Inr (s + rsum A b (nat (i * n)) (nat k) (nat k + 4))
            else Inl IntOverflow)"
  using assms
  by (simp add: unroll4_body_def term0_eq term_off_eq rsum_4 add.assoc)

lemma unroll8_body_eq:
  assumes "0 \<le> i * n" and "i * n + n \<le> int (length A)" and "0 \<le> k" and "k + 8 \<le> n"
    and "n \<le> int (length b)" and "n \<le> INT_MAX"
  shows "unroll8_body n A b i k s =
           (if i * n + k + 7 \<le> INT_MAX then Inr (s + rsum A b (nat (i * n)) (nat k) (nat k + 8))
            else Inl IntOverflow)"
  using assms
  by (simp add: unroll8_body_def term0_eq term_off_eq rsum_8 add.assoc)

lemma unroll_loop_eq:
  assumes w: "0 < w" and w8: "w \<le> 8" and n: "0 \<le> n" "n \<le> INT_MAX" and p: "0 \<le> i * n"
    and body: "\<And>k s. 0 \<le> k \<Longrightarrow> k + w \<le> n \<Longrightarrow> body k s =
           (if i * n + k + w - 1 \<le> INT_MAX then Inr (s + rsum A b (nat (i * n)) (nat k) (nat k + nat w))
            else Inl IntOverflow)"
  shows "for_by w 0 n body s =
           (if w \<le> n \<and> INT_MAX < i * n + (n div w) * w - 1 then Inl IntOverflow
            else Inr ((n div w) * w, s + rsum A b (nat (i * n)) 0 (nat ((n div w) * w))))"
proof -
  define K where "K = (n div w) * w"
  define P where "P = (\<lambda>j t. 0 \<le> j \<and> t = s + rsum A b (nat (i * n)) 0 (nat j)
                        \<and> (0 < j \<longrightarrow> i * n + j - 1 \<le> INT_MAX))"
  define Q where "Q = (\<lambda>e. e = IntOverflow \<and> w \<le> n \<and> INT_MAX < i * n + K - 1)"
  have lo: "INT_MIN \<le> n - w" "n - w \<le> INT_MAX"
    using w w8 n by (auto simp: INT_MIN_def INT_MAX_def)
  have Kn: "K \<le> n" "n - w < K" "K mod w = 0"
    using w n unfolding K_def
    by (simp_all add: mult.commute [of _ w] minus_mod_eq_mult_div [symmetric] algebra_simps)
  have main: "case for_by w 0 n body s of
           Inl e \<Rightarrow> Q e
         | Inr (k', t) \<Rightarrow> P k' t \<and> 0 \<le> k' \<and> n - w < k' \<and> (k' - 0) mod w = 0 \<and> (0 \<le> n \<longrightarrow> k' \<le> n)"
  proof (rule for_by_rule [OF w lo])
    show "P 0 s" by (simp add: P_def)
  next
    fix j t
    assume j: "0 \<le> j" "j + w \<le> n" "(j - 0) mod w = 0" "P j t"
    have "(j + w) mod w = 0" using j by simp
    then have "j + w \<le> K" using j(2) w unfolding K_def
      by (metis add.commute div_mult_mod_eq add_cancel_right_right zdiv_mono1 mult.commute mult_le_cancel_left_pos
          nonzero_mult_div_cancel_left less_irrefl)
    moreover have "nat (j + w) = nat j + nat w" using j w by (simp add: nat_add_distrib)
    ultimately show "case body j t of Inl e \<Rightarrow> Q e | Inr t' \<Rightarrow> P (j + w) t'"
      using j w n by (auto simp: body P_def Q_def rsum_concat [of 0 "nat j"])
  qed
  show ?thesis
  proof (cases "for_by w 0 n body s")
    case (Inl e)
    with main show ?thesis by (auto simp: Q_def K_def)
  next
    case (Inr r)
    obtain k' t where r: "r = (k', t)" by (cases r)
    from main Inr r n have k': "P k' t" "0 \<le> k'" "n - w < k'" "k' mod w = 0" "k' \<le> n" by auto
    have "k' = K"
    proof -
      obtain a where a: "k' = w * a" using k'(4) by auto
      obtain c where c: "K = w * c" using Kn(3) by auto
      have "w * a < w * (c + 1)" using k'(5) Kn(2) a c by (simp add: algebra_simps)
      moreover have "w * c < w * (a + 1)" using k'(3) Kn(1) a c by (simp add: algebra_simps)
      ultimately have "a < c + 1" "c < a + 1" using w by (simp_all add: mult_less_cancel_left_pos)
      then show ?thesis using a c by simp
    qed
    with k' Inr r Kn w show ?thesis
      by (auto simp: P_def K_def)
  qed
qed

lemma sq_fits:
  assumes "0 \<le> n" and "1 \<le> g" and "g \<le> 8"
  shows "n * n - g \<le> INT_MAX \<longleftrightarrow> n \<le> 46340"
proof
  assume a: "n * n - g \<le> INT_MAX"
  show "n \<le> 46340"
  proof (rule ccontr)
    assume "\<not> n \<le> 46340"
    then have "46341 \<le> n" by simp
    then have "46341 * 46341 \<le> n * n" by (intro mult_mono) auto
    with a assms show False by (simp add: INT_MAX_def)
  qed
next
  assume "n \<le> 46340"
  with assms have "n * n \<le> 46340 * 46340" by (intro mult_mono) auto
  with assms show "n * n - g \<le> INT_MAX" by (simp add: INT_MAX_def)
qed

lemma rows_rule:
  assumes n: "0 \<le> n" and g: "n - 8 \<le> g" "g \<le> n - 1"
    and body: "\<And>i c. 0 \<le> i \<Longrightarrow> i < n \<Longrightarrow> length c = nat n \<Longrightarrow>
        body i c = (if INT_MAX < i * n + g then Inl IntOverflow else Inr (c[nat i := f (nat i)]))"
    and len: "length c = nat n"
  shows "for_up 0 n body c =
           (if n * n - 1 \<le> INT_MAX then Inr (map f [0..<nat n]) else Inl IntOverflow)"
proof (cases "n = 0")
  case True
  with len show ?thesis by (subst for_up.simps) (simp add: INT_MAX_def)
next
  case False
  with n have pos: "0 < n" by simp
  define P where "P = (\<lambda>i c'. 0 \<le> i \<and> i \<le> n \<and> length c' = nat n \<and> (\<forall>r<nat i. c' ! r = f r)
                         \<and> (0 < i \<longrightarrow> (i - 1) * n + g \<le> INT_MAX))"
  define Q where "Q = (\<lambda>e. e = IntOverflow \<and> INT_MAX < (n - 1) * n + g)"
  have fit: "(n - 1) * n + g \<le> INT_MAX \<longleftrightarrow> n * n - 1 \<le> INT_MAX"
  proof -
    have "(n - 1) * n + g \<le> INT_MAX \<longleftrightarrow> n * n - (n - g) \<le> INT_MAX"
      by (simp add: algebra_simps)
    also have "\<dots> \<longleftrightarrow> n \<le> 46340" using sq_fits [OF n, of "n - g"] g by simp
    also have "\<dots> \<longleftrightarrow> n * n - 1 \<le> INT_MAX" using sq_fits [OF n, of 1] by simp
    finally show ?thesis .
  qed
  have main: "case for_up 0 n body c of Inl e \<Rightarrow> Q e | Inr c' \<Rightarrow> P (max 0 n) c'"
  proof (rule for_up_rule)
    show "P 0 c" using n len by (simp add: P_def)
  next
    fix i c'
    assume i: "0 \<le> i" "i < n" "P i c'"
    have le: "i * n \<le> (n - 1) * n" using i n by (intro mult_right_mono) auto
    have ov: "INT_MAX < i * n + g \<Longrightarrow> INT_MAX < (n - 1) * n + g"
      using le by linarith
    have nat: "nat (i + 1) = Suc (nat i)" using i by simp
    show "case body i c' of Inl e \<Rightarrow> Q e | Inr t' \<Rightarrow> P (i + 1) t'"
      using i ov n unfolding nat
      by (auto simp: body P_def Q_def less_Suc_eq nth_list_update)
  qed
  show ?thesis
  proof (cases "for_up 0 n body c")
    case (Inl e)
    with main fit show ?thesis by (auto simp: Q_def)
  next
    case (Inr c')
    with main pos have c': "length c' = nat n" "\<forall>r<nat n. c' ! r = f r" "(n - 1) * n + g \<le> INT_MAX"
      by (auto simp: P_def max_def)
    have "c' = map f [0..<nat n]" using c' by (intro nth_equalityI) auto
    with Inr c'(3) fit show ?thesis by simp
  qed
qed

lemma spec_dot_rsum:
  assumes "0 \<le> i" and "0 \<le> n"
  shows "rsum A b (nat (i * n)) 0 (nat n) = spec_dot (nat n) A b (nat i)"
  using assms by (simp add: rsum_def spec_dot_def nat_mult_distrib)

lemma row_bounds:
  assumes "0 \<le> i" and "i < n" and "int (length A) = n * n"
  shows "0 \<le> i * n" and "i * n + n \<le> int (length A)"
proof -
  show "0 \<le> i * n" using assms by simp
  have "(i + 1) * n \<le> n * n" using assms by (intro mult_right_mono) auto
  then show "i * n + n \<le> int (length A)" using assms by (simp add: algebra_simps)
qed

lemma unroll_row_eq:
  assumes w: "0 < w" "w \<le> 8" and n: "n \<le> INT_MAX" and i: "0 \<le> i" "i < n"
    and A: "int (length A) = n * n" and b: "int (length b) = n" and c: "length c = nat n"
    and body: "\<And>k s. 0 \<le> k \<Longrightarrow> k + w \<le> n \<Longrightarrow> body k s =
           (if i * n + k + w - 1 \<le> INT_MAX then Inr (s + rsum A b (nat (i * n)) (nat k) (nat k + nat w))
            else Inl IntOverflow)"
  shows "bind_res (for_by w 0 n body 0) (\<lambda>(k, s).
           bind_res (tail_loop n A b i k s) (\<lambda>s. wr c i s)) =
         (if INT_MAX < i * n + (n - 1) then Inl IntOverflow
          else Inr (c[nat i := spec_dot (nat n) A b (nat i)]))"
proof -
  note rb = row_bounds [OF i A]
  have n0: "0 \<le> n" using i by simp
  define K where "K = (n div w) * w"
  have "n mod w \<le> n" using w n0 by (simp add: zmod_le_nonneg_dividend)
  then have Kn: "0 \<le> K" "K \<le> n" "n - w < K"
    using w n0 unfolding K_def
    by (simp_all add: mult.commute [of _ w] minus_mod_eq_mult_div [symmetric] algebra_simps)
  have cat: "rsum A b (nat (i * n)) 0 (nat K) + rsum A b (nat (i * n)) (nat K) (nat n)
             = spec_dot (nat n) A b (nat i)"
    using Kn i n0 by (simp add: rsum_concat spec_dot_rsum)
  have K0: "\<not> w \<le> n \<Longrightarrow> K = 0"
    using n0 by (simp add: K_def div_pos_pos_trivial)
  show ?thesis
    using Kn K0 i w c cat
    by (auto simp: unroll_loop_eq [OF w n0 n rb(1) body] tail_loop_eq [OF rb Kn(1,2)] b wr_def
        simp flip: K_def)
qed

subsection \<open>Unrolled and baseline kernels\<close>

lemma Mv_mult_unrolled_eq:
  assumes "shaped n A b c"
  shows "Mv_mult_unrolled n A b c =
           (if n * n - 1 \<le> INT_MAX then Inr (spec_mv (nat n) A b) else Inl IntOverflow)"
proof -
  from assms have s: "0 \<le> n" "n \<le> INT_MAX" "int (length A) = n * n" "int (length b) = n"
    "length c = nat n" by (auto simp: shaped_def)
  show ?thesis
    unfolding Mv_mult_unrolled_def spec_mv_def
  proof (rule rows_rule [OF s(1) _ _ _ s(5), where g = "n - 1"])
    fix i and c' :: "real list"
    assume i: "0 \<le> i" "i < n" "length c' = nat n"
    note rb = row_bounds [OF i(1,2) s(3)]
    show "bind_res (for_by 8 0 n (unroll8_body n A b i) 0) (\<lambda>(k, sum_acc).
            bind_res (tail_loop n A b i k sum_acc) (wr c' i)) =
          (if INT_MAX < i * n + (n - 1) then Inl IntOverflow
           else Inr (c'[nat i := spec_dot (nat n) A b (nat i)]))"
      by (rule unroll_row_eq [OF _ _ s(2) i(1,2) s(3,4) i(3)])
         (simp_all add: unroll8_body_eq [OF rb] s)
  qed simp_all
qed

lemma hw1_Mv_mult_unrolled_eq:
  assumes "shaped n A b c"
  shows "hw1_Mv_mult_unrolled n A b c =
           (if n * n - 1 \<le> INT_MAX then Inr (spec_mv (nat n) A b) else Inl IntOverflow)"
proof -
  from assms have s: "0 \<le> n" "n \<le> INT_MAX" "int (length A) = n * n" "int (length b) = n"
    "length c = nat n" by (auto simp: shaped_def)
  show ?thesis
    unfolding hw1_Mv_mult_unrolled_def spec_mv_def
  proof (rule rows_rule [OF s(1) _ _ _ s(5), where g = "n - 1"])
    fix i and c' :: "real list"
    assume i: "0 \<le> i" "i < n" "length c' = nat n"
    note rb = row_bounds [OF i(1,2) s(3)]
    show "bind_res (for_by 4 0 n (unroll4_body n A b i) 0) (\<lambda>(k, sum_acc).
            bind_res (tail_loop n A b i k sum_acc) (wr c' i)) =
          (if INT_MAX < i * n + (n - 1) then Inl IntOverflow
           else Inr (c'[nat i := spec_dot (nat n) A b (nat i)]))"
      by (rule unroll_row_eq [OF _ _ s(2) i(1,2) s(3,4) i(3)])
         (simp_all add: unroll4_body_eq [OF rb] s)
  qed simp_all
qed

lemma madd_step_eq:
  assumes "0 \<le> i" and "i < n" and "int (length A) = n * n" and "0 \<le> k" and "k < n"
    and "int (length b) = n" and "length c = nat n"
  shows "madd_step n A b i k c =
           (if i * n + k \<le> INT_MAX
            then Inr (c[nat i := c ! nat i + A ! (nat i * nat n + nat k) * b ! nat k])
            else Inl IntOverflow)"
proof -
  note rb = row_bounds [OF assms(1,2,3)]
  have "nat (i * n) = nat i * nat n" using assms by (simp add: nat_mult_distrib)
  with rb assms show ?thesis
    by (auto simp: madd_step_def idx_def chk_def rd_def wr_def INT_MIN_def INT_MAX_def nat_add_distrib)
qed

lemma Mv_mult_row_eq:
  assumes i: "0 \<le> i" "i < n" and A: "int (length A) = n * n" and b: "int (length b) = n"
    and c: "length c = nat n"
  shows "for_up 0 n (\<lambda>k c. madd_step n A b i k c) c =
           (if INT_MAX < i * n + (n - 1) then Inl IntOverflow
            else Inr (c[nat i := c ! nat i + spec_dot (nat n) A b (nat i)]))"
proof -
  define P where "P = (\<lambda>k c'. 0 \<le> k \<and> k \<le> n
       \<and> c' = c[nat i := c ! nat i + rsum A b (nat i * nat n) 0 (nat k)]
       \<and> (0 < k \<longrightarrow> i * n + k - 1 \<le> INT_MAX))"
  define Q where "Q = (\<lambda>e. e = IntOverflow \<and> INT_MAX < i * n + (n - 1))"
  have main: "case for_up 0 n (\<lambda>k c. madd_step n A b i k c) c of
                Inl e \<Rightarrow> Q e | Inr c' \<Rightarrow> P (max 0 n) c'"
  proof (rule for_up_rule)
    show "P 0 c" using i by (simp add: P_def)
  next
    fix k and c' :: "real list"
    assume k: "0 \<le> k" "k < n" "P k c'"
    then have len: "length c' = nat n" using c by (simp add: P_def)
    have nat: "nat (k + 1) = Suc (nat k)" using k by simp
    show "case madd_step n A b i k c' of Inl e \<Rightarrow> Q e | Inr t' \<Rightarrow> P (k + 1) t'"
      unfolding madd_step_eq [OF i A k(1,2) b len]
      using k i c by (auto simp: P_def Q_def nat rsum_Suc add.assoc)
  qed
  have "nat (i * n) = nat i * nat n" using i by (simp add: nat_mult_distrib)
  then have "rsum A b (nat i * nat n) 0 (nat n) = spec_dot (nat n) A b (nat i)"
    using spec_dot_rsum [of i n A b] i by simp
  with main i show ?thesis
    by (auto simp: P_def Q_def max_def split: sum.splits)
qed

lemma Mv_mult_eq:
  assumes "shaped n A b c"
  shows "Mv_mult n A b c =
           (if n * n - 1 \<le> INT_MAX then Inr (spec_mv (nat n) A b) else Inl IntOverflow)"
proof -
  from assms have s: "0 \<le> n" "n \<le> INT_MAX" "int (length A) = n * n" "int (length b) = n"
    "length c = nat n" by (auto simp: shaped_def)
  show ?thesis
    unfolding Mv_mult_def spec_mv_def
  proof (rule rows_rule [OF s(1) _ _ _ s(5), where g = "n - 1"])
    fix i and c' :: "real list"
    assume i: "0 \<le> i" "i < n" "length c' = nat n"
    then show "bind_res (wr c' i 0) (for_up 0 n (madd_step n A b i)) =
          (if INT_MAX < i * n + (n - 1) then Inl IntOverflow
           else Inr (c'[nat i := spec_dot (nat n) A b (nat i)]))"
      by (simp add: wr_def Mv_mult_row_eq [OF i(1,2) s(3,4)])
  qed simp_all
qed

subsection \<open>Interchanged kernels\<close>

lemma column_pass_eq:
  assumes A: "int (length A) = n * n" and b: "int (length b) = n" and c: "length c = nat n"
    and k: "0 \<le> k" "k < n"
  shows "for_up 0 n (\<lambda>i c. madd_step n A b i k c) c =
           (if INT_MAX < (n - 1) * n + k then Inl IntOverflow
            else Inr (map (\<lambda>r. c ! r + A ! (r * nat n + nat k) * b ! nat k) [0..<nat n]))"
proof -
  define P where "P = (\<lambda>i c'. 0 \<le> i \<and> i \<le> n \<and> length c' = nat n
       \<and> (\<forall>r<nat n. c' ! r = (if r < nat i then c ! r + A ! (r * nat n + nat k) * b ! nat k else c ! r))
       \<and> (0 < i \<longrightarrow> (i - 1) * n + k \<le> INT_MAX))"
  define Q where "Q = (\<lambda>e. e = IntOverflow \<and> INT_MAX < (n - 1) * n + k)"
  have main: "case for_up 0 n (\<lambda>i c. madd_step n A b i k c) c of
                Inl e \<Rightarrow> Q e | Inr c' \<Rightarrow> P (max 0 n) c'"
  proof (rule for_up_rule)
    show "P 0 c" using k c by (simp add: P_def)
  next
    fix i and c' :: "real list"
    assume i: "0 \<le> i" "i < n" "P i c'"
    then have len: "length c' = nat n" by (simp add: P_def)
    have le: "i * n \<le> (n - 1) * n" using i k by (intro mult_right_mono) auto
    have ov: "INT_MAX < i * n + k \<Longrightarrow> INT_MAX < (n - 1) * n + k"
      using le by linarith
    have nat: "nat (i + 1) = Suc (nat i)" using i by simp
    show "case madd_step n A b i k c' of Inl e \<Rightarrow> Q e | Inr t' \<Rightarrow> P (i + 1) t'"
      unfolding madd_step_eq [OF i(1,2) A k b len]
      using i k ov by (auto simp: P_def Q_def nat nth_list_update less_Suc_eq)
  qed
  show ?thesis
  proof (cases "for_up 0 n (\<lambda>i c. madd_step n A b i k c) c")
    case (Inl e)
    with main show ?thesis by (auto simp: Q_def)
  next
    case (Inr c')
    with main k have c': "length c' = nat n"
      "\<forall>r<nat n. c' ! r = c ! r + A ! (r * nat n + nat k) * b ! nat k"
      "(n - 1) * n + k \<le> INT_MAX"
      by (auto simp: P_def max_def)
    have "c' = map (\<lambda>r. c ! r + A ! (r * nat n + nat k) * b ! nat k) [0..<nat n]"
      using c' by (intro nth_equalityI) auto
    with Inr c'(3) show ?thesis by simp
  qed
qed

lemma interchange_loops_eq:
  assumes n: "0 \<le> n" and A: "int (length A) = n * n" and b: "int (length b) = n"
    and c: "length c = nat n"
  shows "for_up 0 n (\<lambda>k c. for_up 0 n (\<lambda>i c. madd_step n A b i k c) c) c =
           (if n * n - 1 \<le> INT_MAX
            then Inr (map (\<lambda>r. c ! r + spec_dot (nat n) A b r) [0..<nat n])
            else Inl IntOverflow)"
proof (cases "n = 0")
  case True
  with c show ?thesis by (subst for_up.simps) (simp add: INT_MAX_def)
next
  case False
  with n have pos: "0 < n" by simp
  define P where "P = (\<lambda>k c'. 0 \<le> k \<and> k \<le> n \<and> length c' = nat n
       \<and> (\<forall>r<nat n. c' ! r = c ! r + rsum A b (r * nat n) 0 (nat k))
       \<and> (0 < k \<longrightarrow> (n - 1) * n + k - 1 \<le> INT_MAX))"
  define Q where "Q = (\<lambda>e. e = IntOverflow \<and> INT_MAX < (n - 1) * n + (n - 1))"
  have main: "case for_up 0 n (\<lambda>k c. for_up 0 n (\<lambda>i c. madd_step n A b i k c) c) c of
                Inl e \<Rightarrow> Q e | Inr c' \<Rightarrow> P (max 0 n) c'"
  proof (rule for_up_rule)
    show "P 0 c" using n c by (simp add: P_def)
  next
    fix k and c' :: "real list"
    assume k: "0 \<le> k" "k < n" "P k c'"
    then have len: "length c' = nat n" by (simp add: P_def)
    have nat: "nat (k + 1) = Suc (nat k)" using k by simp
    show "case for_up 0 n (\<lambda>i c. madd_step n A b i k c) c' of
            Inl e \<Rightarrow> Q e | Inr t' \<Rightarrow> P (k + 1) t'"
      unfolding column_pass_eq [OF A b len k(1,2)]
      using k by (auto simp: P_def Q_def nat rsum_Suc add.assoc)
  qed
  have sq: "(n - 1) * n + (n - 1) = n * n - 1" by (simp add: algebra_simps)
  have dot: "rsum A b (r * nat n) 0 (nat n) = spec_dot (nat n) A b r" for r
    by (simp add: rsum_def spec_dot_def)
  show ?thesis
  proof (cases "for_up 0 n (\<lambda>k c. for_up 0 n (\<lambda>i c. madd_step n A b i k c) c) c")
    case (Inl e)
    with main sq show ?thesis by (auto simp: Q_def)
  next
    case (Inr c')
    with main pos have c': "length c' = nat n"
      "\<forall>r<nat n. c' ! r = c ! r + spec_dot (nat n) A b r"
      "(n - 1) * n + n - 1 \<le> INT_MAX"
      by (auto simp: P_def max_def dot)
    have "c' = map (\<lambda>r. c ! r + spec_dot (nat n) A b r) [0..<nat n]"
      using c' by (intro nth_equalityI) auto
    with Inr c'(3) sq show ?thesis by simp
  qed
qed

lemma zero_loop_eq:
  assumes "0 \<le> n" and "length c = nat n"
  shows "for_up 0 n (\<lambda>i c. wr c i 0) c = Inr (replicate (nat n) 0)"
proof -
  define P where "P = (\<lambda>i (c' :: real list). 0 \<le> i \<and> i \<le> n \<and> length c' = nat n
                         \<and> (\<forall>r<nat i. c' ! r = 0))"
  have main: "case for_up 0 n (\<lambda>i c. wr c i 0) c of Inl e \<Rightarrow> False | Inr c' \<Rightarrow> P (max 0 n) c'"
  proof (rule for_up_rule)
    show "P 0 c" using assms by (simp add: P_def)
  next
    fix i and c' :: "real list"
    assume i: "0 \<le> i" "i < n" "P i c'"
    have nat: "nat (i + 1) = Suc (nat i)" using i by simp
    show "case wr c' i 0 of Inl e \<Rightarrow> False | Inr t' \<Rightarrow> P (i + 1) t'"
      using i by (auto simp: P_def wr_def nat nth_list_update less_Suc_eq)
  qed
  show ?thesis
  proof (cases "for_up 0 n (\<lambda>i c. wr c i 0) c")
    case (Inl e)
    with main show ?thesis by simp
  next
    case (Inr c')
    with main assms have "length c' = nat n" "\<forall>r<nat n. c' ! r = 0"
      by (auto simp: P_def max_def)
    then have "c' = replicate (nat n) 0" by (intro nth_equalityI) auto
    with Inr show ?thesis by simp
  qed
qed

lemma Mv_mult_interchanged_eq:
  assumes "shaped n A b c"
  shows "Mv_mult_interchanged n A b c =
           (if n * n - 1 \<le> INT_MAX then Inr (spec_mv (nat n) A b) else Inl IntOverflow)"
proof -
  from assms have s: "0 \<le> n" "int (length A) = n * n" "int (length b) = n"
    "length c = nat n" by (auto simp: shaped_def)
  have "map (\<lambda>r. replicate (nat n) 0 ! r + spec_dot (nat n) A b r) [0..<nat n] = spec_mv (nat n) A b"
    by (simp add: spec_mv_def)
  then show ?thesis
    by (simp add: Mv_mult_interchanged_def zero_loop_eq [OF s(1,4)]
        interchange_loops_eq [OF s(1,2,3)])
qed

lemma hw1_Mv_mult_interchanged_eq:
  assumes "shaped n A b c"
  shows "hw1_Mv_mult_interchanged n A b c =
           (if n * n - 1 \<le> INT_MAX then Inr (spec_mv (nat n) A b) else Inl IntOverflow)"
proof -
  from assms have s: "0 \<le> n" "int (length A) = n * n" "int (length b) = n"
    "length c = nat n" by (auto simp: shaped_def)
  have "map (\<lambda>r. replicate (nat n) 0 ! r + spec_dot (nat n) A b r) [0..<nat n] = spec_mv (nat n) A b"
    by (simp add: spec_mv_def)
  then show ?thesis
    by (simp add: hw1_Mv_mult_interchanged_def s(4) interchange_loops_eq [OF s(1,2,3)])
qed

subsection \<open>Vectorized kernels\<close>

lemma fmadd_length:
  "length (mm256_fmadd a b c) = min (length a) (min (length b) (length c))"
  by (simp add: mm256_fmadd_def)

lemma fmadd_sum_list:
  assumes "length a = length b" and "length b = length c"
  shows "sum_list (mm256_fmadd a b c) = sum_list c + (\<Sum>j = 0..<length a. a ! j * b ! j)"
  using assms
proof (induction a b c rule: list_induct3)
  case Nil
  then show ?case by (simp add: mm256_fmadd_def)
next
  case (Cons x xs y ys z zs)
  have "(\<Sum>j = 0..<Suc (length xs). (x # xs) ! j * (y # ys) ! j)
        = x * y + (\<Sum>j = 0..<length xs. xs ! j * ys ! j)"
    by (simp add: sum.atLeast0_lessThan_Suc_shift del: sum.op_ivl_Suc)
  with Cons show ?case by (simp add: mm256_fmadd_def)
qed

lemma loadu_sum:
  assumes "p + k + L \<le> length A" and "k + L \<le> length b"
  shows "(\<Sum>j = 0..<L. take L (drop (p + k) A) ! j * take L (drop k b) ! j) = rsum A b p k (k + L)"
proof -
  have "rsum A b p k (k + L) = (\<Sum>j = 0..<L. A ! (p + (j + k)) * b ! (j + k))"
    unfolding rsum_def using sum.shift_bounds_nat_ivl [of "\<lambda>j. A ! (p + j) * b ! j" 0 k L]
    by (simp add: add.commute)
  also have "\<dots> = (\<Sum>j = 0..<L. take L (drop (p + k) A) ! j * take L (drop k b) ! j)"
    using assms by (intro sum.cong) (auto simp: add_ac)
  finally show ?thesis by simp
qed

lemma avx_body_eq:
  assumes "0 \<le> i * n" and "i * n + n \<le> int (length A)" and "0 \<le> k" and "k + int L \<le> n"
    and "n \<le> int (length b)"
  shows "avx_body L n A b i k cv =
           (if i * n + k \<le> INT_MAX
            then Inr (mm256_fmadd (take L (drop (nat (i * n) + nat k) A)) (take L (drop (nat k) b)) cv)
            else Inl IntOverflow)"
  using assms
  by (auto simp: avx_body_def idx_def chk_def mm256_loadu_def INT_MIN_def INT_MAX_def nat_add_distrib)

lemma avx_loop_rule:
  assumes L: "0 < L" "L \<le> 8" and n: "0 \<le> n" "n \<le> INT_MAX"
    and p: "0 \<le> i * n" "i * n + n \<le> int (length A)" and b: "n \<le> int (length b)"
  shows "case for_by (int L) 0 n (avx_body L n A b i) (mm256_setzero L) of
           Inl e \<Rightarrow> e = IntOverflow \<and> int L \<le> n \<and> INT_MAX < i * n + (n div int L) * int L - int L
         | Inr (k', cv) \<Rightarrow> k' = (n div int L) * int L \<and> length cv = L
             \<and> sum_list cv = rsum A b (nat (i * n)) 0 (nat k')
             \<and> (int L \<le> n \<longrightarrow> i * n + k' - int L \<le> INT_MAX)"
proof -
  define w where "w = int L"
  have w: "0 < w" "w \<le> 8" using L by (simp_all add: w_def)
  define K where "K = (n div w) * w"
  define P where "P = (\<lambda>j cv. 0 \<le> j \<and> length cv = L \<and> sum_list cv = rsum A b (nat (i * n)) 0 (nat j)
                        \<and> (0 < j \<longrightarrow> i * n + j - w \<le> INT_MAX))"
  define Q where "Q = (\<lambda>e. e = IntOverflow \<and> w \<le> n \<and> INT_MAX < i * n + K - w)"
  have lo: "INT_MIN \<le> n - w" "n - w \<le> INT_MAX"
    using w n by (auto simp: INT_MIN_def INT_MAX_def)
  have "n mod w \<le> n" using w n by (simp add: zmod_le_nonneg_dividend)
  then have Kn: "K \<le> n" "n - w < K" "K mod w = 0"
    using w n unfolding K_def
    by (simp_all add: mult.commute [of _ w] minus_mod_eq_mult_div [symmetric] algebra_simps)
  have main: "case for_by w 0 n (avx_body L n A b i) (mm256_setzero L) of
           Inl e \<Rightarrow> Q e
         | Inr (k', t) \<Rightarrow> P k' t \<and> 0 \<le> k' \<and> n - w < k' \<and> (k' - 0) mod w = 0 \<and> (0 \<le> n \<longrightarrow> k' \<le> n)"
  proof (rule for_by_rule [OF w(1) lo])
    show "P 0 (mm256_setzero L)" by (simp add: P_def mm256_setzero_def sum_list_replicate)
  next
    fix j and cv :: "real list"
    assume j: "0 \<le> j" "j + w \<le> n" "(j - 0) mod w = 0" "P j cv"
    have "(j + w) mod w = 0" using j by simp
    then have jK: "j + w \<le> K" using j(2) w unfolding K_def
      by (metis add.commute div_mult_mod_eq add_cancel_right_right zdiv_mono1 mult.commute mult_le_cancel_left_pos
          nonzero_mult_div_cancel_left less_irrefl)
    have nat: "nat (j + w) = nat j + L" using j w by (simp add: nat_add_distrib w_def)
    have len: "length cv = L" using j by (simp add: P_def)
    have bnd: "nat (i * n) + nat j + L \<le> length A" "nat j + L \<le> length b"
      using j p b by (simp_all add: w_def)
    have sum: "sum_list (mm256_fmadd (take L (drop (nat (i * n) + nat j) A)) (take L (drop (nat j) b)) cv)
               = rsum A b (nat (i * n)) 0 (nat j + L)"
    proof -
      let ?a = "take L (drop (nat (i * n) + nat j) A)" and ?b = "take L (drop (nat j) b)"
      have la: "length ?a = L" "length ?b = L" using bnd by simp_all
      have "sum_list (mm256_fmadd ?a ?b cv) = sum_list cv + (\<Sum>j = 0..<length ?a. ?a ! j * ?b ! j)"
        by (rule fmadd_sum_list) (simp_all only: la len)
      also have "(\<Sum>j = 0..<length ?a. ?a ! j * ?b ! j) = rsum A b (nat (i * n)) (nat j) (nat j + L)"
        unfolding la by (rule loadu_sum [OF bnd])
      also have "sum_list cv = rsum A b (nat (i * n)) 0 (nat j)" using j by (simp add: P_def)
      finally show ?thesis by (simp add: rsum_concat)
    qed
    have j': "k + int L \<le> n" if "k = j" for k using that j by (simp add: w_def)
    show "case avx_body L n A b i j cv of Inl e \<Rightarrow> Q e | Inr t' \<Rightarrow> P (j + w) t'"
      unfolding avx_body_eq [OF p j(1) j' [OF refl] b]
      using j w jK bnd len by (auto simp: P_def Q_def nat sum fmadd_length)
  qed
  show ?thesis
  proof (cases "for_by w 0 n (avx_body L n A b i) (mm256_setzero L)")
    case (Inl e)
    with main show ?thesis by (auto simp: Q_def K_def w_def)
  next
    case (Inr r)
    obtain k' t where r: "r = (k', t)" by (cases r)
    from main Inr r n have k': "P k' t" "0 \<le> k'" "n - w < k'" "k' mod w = 0" "k' \<le> n" by auto
    have "k' = K"
    proof -
      obtain a where a: "k' = w * a" using k'(4) by auto
      obtain c where c: "K = w * c" using Kn(3) by auto
      have "w * a < w * (c + 1)" using k'(5) Kn(2) a c by (simp add: algebra_simps)
      moreover have "w * c < w * (a + 1)" using k'(3) Kn(1) a c by (simp add: algebra_simps)
      ultimately have "a < c + 1" "c < a + 1" using w by (simp_all add: mult_less_cancel_left_pos)
      then show ?thesis using a c by simp
    qed
    moreover have "w \<le> n \<Longrightarrow> 0 < K" using Kn(2) by simp
    ultimately show ?thesis using k' Inr r
      by (auto simp: P_def K_def w_def)
  qed
qed

lemma hsum4: "length cv = 4 \<Longrightarrow> cv ! 0 + cv ! 1 + cv ! 2 + cv ! 3 = sum_list (cv :: real list)"
  by (auto simp: numeral_eq_Suc length_Suc_conv)

lemma hsum8: "length cv = 8 \<Longrightarrow>
    cv ! 0 + cv ! 1 + cv ! 2 + cv ! 3 + cv ! 4 + cv ! 5 + cv ! 6 + cv ! 7 = sum_list (cv :: real list)"
  by (auto simp: numeral_eq_Suc length_Suc_conv)

lemma avx_row_eq:
  assumes L: "0 < L" "L \<le> 8" and n: "n \<le> INT_MAX" and i: "0 \<le> i" "i < n"
    and A: "int (length A) = n * n" and b: "int (length b) = n" and c: "length c = nat n"
    and h: "\<And>cv. length cv = L \<Longrightarrow> hsum cv = sum_list cv"
  shows "bind_res (for_by (int L) 0 n (avx_body L n A b i) (mm256_setzero L)) (\<lambda>(k, cv).
           bind_res (tail_loop n A b i k (hsum cv)) (\<lambda>s. wr c i s)) =
         (if INT_MAX < i * n + (if n mod int L = 0 then n - int L else n - 1) then Inl IntOverflow
          else Inr (c[nat i := spec_dot (nat n) A b (nat i)]))"
proof -
  note rb = row_bounds [OF i A]
  have n0: "0 \<le> n" using i by simp
  define w where "w = int L"
  have w: "0 < w" "w \<le> 8" using L by (simp_all add: w_def)
  define K where "K = (n div w) * w"
  have "n mod w \<le> n" using w n0 by (simp add: zmod_le_nonneg_dividend)
  then have Kn: "0 \<le> K" "K \<le> n" "n - w < K"
    using w n0 unfolding K_def
    by (simp_all add: mult.commute [of _ w] minus_mod_eq_mult_div [symmetric] algebra_simps)
  have Kmod: "K = n \<longleftrightarrow> n mod w = 0"
    unfolding K_def by (metis add.right_neutral div_mult_mod_eq add_left_cancel)
  have bn: "n \<le> int (length b)" using b by simp
  have main: "case for_by w 0 n (avx_body L n A b i) (mm256_setzero L) of
           Inl e \<Rightarrow> e = IntOverflow \<and> w \<le> n \<and> INT_MAX < i * n + K - w
         | Inr (k', cv) \<Rightarrow> k' = K \<and> length cv = L
             \<and> sum_list cv = rsum A b (nat (i * n)) 0 (nat k')
             \<and> (w \<le> n \<longrightarrow> i * n + k' - w \<le> INT_MAX)"
    unfolding w_def K_def by (rule avx_loop_rule [OF L n0 n rb bn])
  have cat: "rsum A b (nat (i * n)) 0 (nat K) + rsum A b (nat (i * n)) (nat K) (nat n)
             = spec_dot (nat n) A b (nat i)"
    using Kn i n0 by (simp add: rsum_concat spec_dot_rsum)
  have wn: "w \<le> n" if "K = n" using that Kn i w
    by (metis K_def div_pos_pos_trivial mult_zero_left n0 not_le less_le_trans)
  show ?thesis
  proof (cases "for_by w 0 n (avx_body L n A b i) (mm256_setzero L)")
    case (Inl e)
    have g: "(if n mod int L = 0 then n - int L else n - 1) = (if K = n then n - w else n - 1)"
      using Kmod by (simp add: w_def)
    from Inl main have "e = IntOverflow" "w \<le> n" "INT_MAX < i * n + K - w" by auto
    with Kn Inl show ?thesis unfolding g by (auto simp: w_def)
  next
    case (Inr r)
    obtain k' cv where r: "r = (k', cv)" by (cases r)
    from main Inr r have k': "k' = K" "length cv = L"
      "sum_list cv = rsum A b (nat (i * n)) 0 (nat K)" "w \<le> n \<longrightarrow> i * n + K - w \<le> INT_MAX"
      by auto
    have e: "bind_res (for_by (int L) 0 n (avx_body L n A b i) (mm256_setzero L)) (\<lambda>(k, cv).
           bind_res (tail_loop n A b i k (hsum cv)) (\<lambda>s. wr c i s))
         = bind_res (tail_loop n A b i K (sum_list cv)) (\<lambda>s. wr c i s)"
      using Inr r k'(1) h [OF k'(2)] by (simp add: w_def)
    have g: "(if n mod int L = 0 then n - int L else n - 1) = (if K = n then n - w else n - 1)"
      using Kmod by (simp add: w_def)
    show ?thesis
      unfolding e g tail_loop_eq [OF rb Kn(1,2) bn]
      using Kn wn k'(3,4) cat c i
      by (auto simp: wr_def)
  qed
qed

lemma Mv_mult_optimized_eq:
  assumes "shaped n A b c"
  shows "Mv_mult_optimized n A b c =
           (if n * n - 1 \<le> INT_MAX then Inr (spec_mv (nat n) A b) else Inl IntOverflow)"
proof -
  from assms have s: "0 \<le> n" "n \<le> INT_MAX" "int (length A) = n * n" "int (length b) = n"
    "length c = nat n" by (auto simp: shaped_def)
  show ?thesis
    unfolding Mv_mult_optimized_def spec_mv_def
  proof (rule rows_rule [OF s(1) _ _ _ s(5), where g = "if n mod 4 = 0 then n - 4 else n - 1"])
    fix i and c' :: "real list"
    assume i: "0 \<le> i" "i < n" "length c' = nat n"
    show "bind_res (for_by 4 0 n (avx_body 4 n A b i) (mm256_setzero 4)) (\<lambda>(k, c_sum_array).
            bind_res (tail_loop n A b i k
              (c_sum_array ! 0 + c_sum_array ! 1 + c_sum_array ! 2 + c_sum_array ! 3)) (wr c' i)) =
          (if INT_MAX < i * n + (if n mod 4 = 0 then n - 4 else n - 1) then Inl IntOverflow
           else Inr (c'[nat i := spec_dot (nat n) A b (nat i)]))"
      using avx_row_eq [where L = 4 and hsum = "\<lambda>cv. cv ! 0 + cv ! 1 + cv ! 2 + cv ! 3",
          OF _ _ s(2) i(1,2) s(3,4) i(3) hsum4]
      by simp
  qed simp_all
qed

lemma Mv_mult_avx2_eq:
  assumes "shaped n A b c"
  shows "Mv_mult_avx2 n A b c =
           (if n * n - 1 \<le> INT_MAX then Inr (spec_mv (nat n) A b) else Inl IntOverflow)"
proof -
  from assms have s: "0 \<le> n" "n \<le> INT_MAX" "int (length A) = n * n" "int (length b) = n"
    "length c = nat n" by (auto simp: shaped_def)
  show ?thesis
    unfolding Mv_mult_avx2_def spec_mv_def
  proof (rule rows_rule [OF s(1) _ _ _ s(5), where g = "if n mod 8 = 0 then n - 8 else n - 1"])
    fix i and c' :: "real list"
    assume i: "0 \<le> i" "i < n" "length c' = nat n"
    show "bind_res (for_by 8 0 n (avx_body 8 n A b i) (mm256_setzero 8)) (\<lambda>(k, c_sum_array).
            bind_res (tail_loop n A b i k
              (c_sum_array ! 0 + c_sum_array ! 1 + c_sum_array ! 2 + c_sum_array ! 3 +
               c_sum_array ! 4 + c_sum_array ! 5 + c_sum_array ! 6 + c_sum_array ! 7)) (wr c' i)) =
          (if INT_MAX < i * n + (if n mod 8 = 0 then n - 8 else n - 1) then Inl IntOverflow
           else Inr (c'[nat i := spec_dot (nat n) A b (nat i)]))"
      using avx_row_eq [where L = 8 and hsum = "\<lambda>cv. cv ! 0 + cv ! 1 + cv ! 2 + cv ! 3
          + cv ! 4 + cv ! 5 + cv ! 6 + cv ! 7",
          OF _ _ s(2) i(1,2) s(3,4) i(3) hsum8]
      by simp
  qed simp_all
qed

subsection \<open>The C kernel\<close>

lemma for_up_Some:
  assumes "\<And>j t. i \<le> j \<Longrightarrow> j < n \<Longrightarrow> body' j (Some t) = bind_res (body j t) (\<lambda>t'. Inr (Some t'))"
  shows "for_up i n body' (Some s) = bind_res (for_up i n body s) (\<lambda>t'. Inr (Some t'))"
  using assms
proof (induction "nat (n - i)" arbitrary: i s)
  case 0
  then show ?case by (simp add: for_up.simps [of i])
next
  case (Suc m)
  then have lt: "i < n" by linarith
  show ?case
  proof (cases "body i s")
    case (Inl e)
    with lt Suc.prems [of i s] show ?thesis by (simp add: for_up.simps [of i])
  next
    case (Inr t')
    have m: "m = nat (n - (i + 1))" using Suc.hyps(2) by linarith
    have "for_up (i + 1) n body' (Some t') = bind_res (for_up (i + 1) n body t') (\<lambda>t'. Inr (Some t'))"
      by (rule Suc.hyps(1) [OF m]) (use Suc.prems in auto)
    with Inr lt Suc.prems [of i s] show ?thesis by (simp add: for_up.simps [of i])
  qed
qed

lemma bind_res_assoc:
  "bind_res (bind_res m f) g = bind_res m (\<lambda>x. bind_res (f x) g)"
  by (cases m) auto

lemma madd_step_p_Some:
  "madd_step_p n (Some A) (Some B) i k (Some C) = bind_res (madd_step n A B i k C) (\<lambda>t'. Inr (Some t'))"
  by (simp add: madd_step_p_def madd_step_def rd_p_def wr_p_def bind_res_assoc)

lemma MatVecMult_eq:
  assumes "shaped n A b c"
  shows "MatVecMult (Some A) (Some b) (Some c) n n =
           (if n * n - 1 \<le> INT_MAX then Inr (Some (spec_mv (nat n) A b)) else Inl IntOverflow)"
proof -
  from assms have s: "0 \<le> n" "int (length A) = n * n" "int (length b) = n"
    "length c = nat n" by (auto simp: shaped_def)
  have col: "for_up 0 n (\<lambda>i C. madd_step_p n (Some A) (Some b) i k C) (Some t)
             = bind_res (for_up 0 n (\<lambda>i C. madd_step n A b i k C) t) (\<lambda>t'. Inr (Some t'))" for k t
    by (rule for_up_Some) (simp add: madd_step_p_Some)
  have all: "for_up 0 n (\<lambda>k C. for_up 0 n (\<lambda>i C. madd_step_p n (Some A) (Some b) i k C) C) (Some t)
             = bind_res (for_up 0 n (\<lambda>k C. for_up 0 n (\<lambda>i C. madd_step n A b i k C) C) t)
                 (\<lambda>t'. Inr (Some t'))" for t
    by (rule for_up_Some) (simp add: col)
  have "map (\<lambda>r. replicate (nat n) 0 ! r + spec_dot (nat n) A b r) [0..<nat n] = spec_mv (nat n) A b"
    by (simp add: spec_mv_def)
  then show ?thesis
    using s by (simp add: MatVecMult_def memset0_def all interchange_loops_eq [OF s(1,2,3)])
qed

section \<open>The kernels compute the product\<close>

text \<open>
  Claim C1, as the code has it. For a dimension \<open>n > 0\<close> whose largest index
  \<open>n * n - 1\<close> is an \<^verbatim>\<open>int\<close> (that is \<open>n \<le> 46340\<close>), a matrix \<open>A\<close> of length
  \<open>n * n\<close> and vectors \<open>b\<close>, \<open>c\<close> of length \<open>n\<close>, every kernel (baseline, the three
  interchanged ones, the two unrolled ones, the two vectorized ones) returns the vector
  whose entry \<open>i\<close> is the sum over \<open>k\<close> in \<open>[0, n)\<close> of \<open>A[i * n + k] * b[k]\<close>.
\<close>

theorem kernels_compute_product:
  assumes "shaped n A b c" and "0 < n" and "n * n - 1 \<le> INT_MAX"
  shows "Mv_mult n A b c = Inr (spec_mv (nat n) A b)
       \<and> Mv_mult_interchanged n A b c = Inr (spec_mv (nat n) A b)
       \<and> hw1_Mv_mult_interchanged n A b c = Inr (spec_mv (nat n) A b)
       \<and> MatVecMult (Some A) (Some b) (Some c) n n = Inr (Some (spec_mv (nat n) A b))
       \<and> Mv_mult_unrolled n A b c = Inr (spec_mv (nat n) A b)
       \<and> hw1_Mv_mult_unrolled n A b c = Inr (spec_mv (nat n) A b)
       \<and> Mv_mult_optimized n A b c = Inr (spec_mv (nat n) A b)
       \<and> Mv_mult_avx2 n A b c = Inr (spec_mv (nat n) A b)
       \<and> length (spec_mv (nat n) A b) = nat n
       \<and> (\<forall>i<nat n. spec_mv (nat n) A b ! i = (\<Sum>k = 0..<nat n. A ! (i * nat n + k) * b ! k))"
  using assms
  by (simp add: Mv_mult_eq Mv_mult_interchanged_eq hw1_Mv_mult_interchanged_eq MatVecMult_eq
      Mv_mult_unrolled_eq hw1_Mv_mult_unrolled_eq Mv_mult_optimized_eq Mv_mult_avx2_eq
      spec_mv_def spec_dot_def)

theorem kernels_compute_product_witness:
  "shaped 2 [1, 2, 3, 4] [5, 6] [7, 8] \<and> (0 :: int) < 2 \<and> (2 :: int) * 2 - 1 \<le> INT_MAX
   \<and> Mv_mult 2 [1, 2, 3, 4] [5, 6] [7, 8] = Inr [17, 39]
   \<and> Mv_mult_interchanged 2 [1, 2, 3, 4] [5, 6] [7, 8] = Inr [17, 39]
   \<and> hw1_Mv_mult_interchanged 2 [1, 2, 3, 4] [5, 6] [7, 8] = Inr [17, 39]
   \<and> MatVecMult (Some [1, 2, 3, 4]) (Some [5, 6]) (Some [7, 8]) 2 2 = Inr (Some [17, 39])
   \<and> Mv_mult_unrolled 2 [1, 2, 3, 4] [5, 6] [7, 8] = Inr [17, 39]
   \<and> hw1_Mv_mult_unrolled 2 [1, 2, 3, 4] [5, 6] [7, 8] = Inr [17, 39]
   \<and> Mv_mult_optimized 2 [1, 2, 3, 4] [5, 6] [7, 8] = Inr [17, 39]
   \<and> Mv_mult_avx2 2 [1, 2, 3, 4] [5, 6] [7, 8] = Inr [17, 39]"
proof -
  have s: "shaped 2 [1, 2, 3, 4] [5, 6] [7, 8]" by (simp add: shaped_def INT_MAX_def)
  have f: "(2 :: int) * 2 - 1 \<le> INT_MAX" by (simp add: INT_MAX_def)
  have v: "spec_mv (nat 2) [1, 2, 3, 4] [5, 6] = [17, 39]"
    by (simp add: spec_mv_def spec_dot_def upt_rec numeral_2_eq_2)
  show ?thesis
    using kernels_compute_product [OF s _ f] s f unfolding v by simp
qed

text \<open>
  The claim as stated, for every \<open>N > 0\<close>, fails at \<open>N = 46341\<close>: the index
  \<open>i * n + k\<close> of the baseline kernel leaves \<^verbatim>\<open>int\<close> in row 46340 at \<open>k = 41708\<close>.
\<close>

theorem Mv_mult_overflow_counterexample:
  "Mv_mult 46341 (replicate 2147488281 0) (replicate 46341 0) (replicate 46341 0) = Inl IntOverflow"
  by (simp add: Mv_mult_eq shaped_def INT_MAX_def)

section \<open>The variants agree\<close>

lemma unroll_split:
  assumes s: "shaped n A b c" and f: "n * n - 1 \<le> INT_MAX" and i: "0 \<le> i" "i < n"
    and w: "0 < w" "w \<le> 8"
    and body: "\<And>k s. 0 \<le> k \<Longrightarrow> k + w \<le> n \<Longrightarrow> body k s =
           (if i * n + k + w - 1 \<le> INT_MAX then Inr (s + rsum A b (nat (i * n)) (nat k) (nat k + nat w))
            else Inl IntOverflow)"
  shows "for_by w 0 n body 0 = Inr ((n div w) * w, rsum A b (nat (i * n)) 0 (nat ((n div w) * w)))
       \<and> tail_loop n A b i ((n div w) * w) t
           = Inr (t + rsum A b (nat (i * n)) (nat ((n div w) * w)) (nat n))"
proof -
  from s have n: "0 \<le> n" "n \<le> INT_MAX" "int (length A) = n * n" "int (length b) = n"
    by (auto simp: shaped_def)
  note rb = row_bounds [OF i n(3)]
  have "(i + 1) * n \<le> n * n" using i by (intro mult_right_mono) auto
  then have fit: "i * n + n - 1 \<le> INT_MAX" using f by (simp add: algebra_simps)
  define K where "K = (n div w) * w"
  have "n mod w \<le> n" using w n by (simp add: zmod_le_nonneg_dividend)
  then have Kn: "0 \<le> K" "K \<le> n"
    using w n unfolding K_def
    by (simp_all add: mult.commute [of _ w] minus_mod_eq_mult_div [symmetric] algebra_simps)
  have bn: "n \<le> int (length b)" using n by simp
  show ?thesis
    using fit Kn
    by (simp add: unroll_loop_eq [OF w n(1,2) rb(1) body] tail_loop_eq [OF rb Kn bn]
        flip: K_def)
qed

text \<open>
  Claim C2, as the code has it. For every \<open>n \<ge> 0\<close> whose largest index \<open>n * n - 1\<close>
  is an \<^verbatim>\<open>int\<close> (that is \<open>n \<le> 46340\<close>), \<open>A\<close> of length \<open>n * n\<close> and \<open>b\<close> of length
  \<open>n\<close>, the baseline kernel returns the product, and the unrolled kernels (width 8 and
  width 4), the interchanged kernels and the vectorized kernels (4 and 8 lanes) return
  what the baseline kernel returns, arithmetic being exact. In a row \<open>i\<close> the unrolled
  main loop ends at \<open>k = (n div W) * W\<close> with the sum of the terms below it, and the
  remainder loop adds the terms from there to \<open>n\<close>, which are \<open>n mod W\<close> many: all of
  them when \<open>n < W\<close>, none when \<open>W\<close> divides \<open>n\<close>. The two parts add up to entry \<open>i\<close>
  of the result, the sum over \<open>k\<close> in \<open>[0, n)\<close> of \<open>A[i * n + k] * b[k]\<close>.
\<close>

theorem variants_agree_with_baseline:
  assumes "shaped n A b c" and "n * n - 1 \<le> INT_MAX"
  shows "Mv_mult n A b c = Inr (spec_mv (nat n) A b)
       \<and> Mv_mult_unrolled n A b c = Mv_mult n A b c
       \<and> hw1_Mv_mult_unrolled n A b c = Mv_mult n A b c
       \<and> Mv_mult_interchanged n A b c = Mv_mult n A b c
       \<and> hw1_Mv_mult_interchanged n A b c = Mv_mult n A b c
       \<and> MatVecMult (Some A) (Some b) (Some c) n n
           = bind_res (Mv_mult n A b c) (\<lambda>c'. Inr (Some c'))
       \<and> Mv_mult_optimized n A b c = Mv_mult n A b c
       \<and> Mv_mult_avx2 n A b c = Mv_mult n A b c
       \<and> length (spec_mv (nat n) A b) = nat n
       \<and> (\<forall>i t. 0 \<le> i \<and> i < n \<longrightarrow>
            for_by 8 0 n (unroll8_body n A b i) 0
              = Inr ((n div 8) * 8, rsum A b (nat (i * n)) 0 (nat ((n div 8) * 8)))
          \<and> tail_loop n A b i ((n div 8) * 8) t
              = Inr (t + rsum A b (nat (i * n)) (nat ((n div 8) * 8)) (nat n))
          \<and> n - (n div 8) * 8 = n mod 8
          \<and> for_by 4 0 n (unroll4_body n A b i) 0
              = Inr ((n div 4) * 4, rsum A b (nat (i * n)) 0 (nat ((n div 4) * 4)))
          \<and> tail_loop n A b i ((n div 4) * 4) t
              = Inr (t + rsum A b (nat (i * n)) (nat ((n div 4) * 4)) (nat n))
          \<and> n - (n div 4) * 4 = n mod 4
          \<and> spec_mv (nat n) A b ! nat i
              = rsum A b (nat (i * n)) 0 (nat ((n div 8) * 8))
                + rsum A b (nat (i * n)) (nat ((n div 8) * 8)) (nat n)
          \<and> spec_mv (nat n) A b ! nat i
              = rsum A b (nat (i * n)) 0 (nat ((n div 4) * 4))
                + rsum A b (nat (i * n)) (nat ((n div 4) * 4)) (nat n)
          \<and> spec_mv (nat n) A b ! nat i = (\<Sum>k = 0..<nat n. A ! (nat i * nat n + k) * b ! k))"
proof -
  note s = assms(1) and f = assms(2)
  from s have n: "0 \<le> n" "n \<le> INT_MAX" "int (length A) = n * n" "int (length b) = n"
    by (auto simp: shaped_def)
  have split: "for_by 8 0 n (unroll8_body n A b i) 0
              = Inr ((n div 8) * 8, rsum A b (nat (i * n)) 0 (nat ((n div 8) * 8)))
          \<and> tail_loop n A b i ((n div 8) * 8) t
              = Inr (t + rsum A b (nat (i * n)) (nat ((n div 8) * 8)) (nat n))
          \<and> n - (n div 8) * 8 = n mod 8
          \<and> for_by 4 0 n (unroll4_body n A b i) 0
              = Inr ((n div 4) * 4, rsum A b (nat (i * n)) 0 (nat ((n div 4) * 4)))
          \<and> tail_loop n A b i ((n div 4) * 4) t
              = Inr (t + rsum A b (nat (i * n)) (nat ((n div 4) * 4)) (nat n))
          \<and> n - (n div 4) * 4 = n mod 4
          \<and> spec_mv (nat n) A b ! nat i
              = rsum A b (nat (i * n)) 0 (nat ((n div 8) * 8))
                + rsum A b (nat (i * n)) (nat ((n div 8) * 8)) (nat n)
          \<and> spec_mv (nat n) A b ! nat i
              = rsum A b (nat (i * n)) 0 (nat ((n div 4) * 4))
                + rsum A b (nat (i * n)) (nat ((n div 4) * 4)) (nat n)
          \<and> spec_mv (nat n) A b ! nat i = (\<Sum>k = 0..<nat n. A ! (nat i * nat n + k) * b ! k)"
    if i: "0 \<le> i" "i < n" for i t
  proof -
    note rb = row_bounds [OF i n(3)]
    have b: "n \<le> int (length b)" using n by simp
    have u8: "for_by 8 0 n (unroll8_body n A b i) 0
              = Inr ((n div 8) * 8, rsum A b (nat (i * n)) 0 (nat ((n div 8) * 8)))
          \<and> tail_loop n A b i ((n div 8) * 8) t
              = Inr (t + rsum A b (nat (i * n)) (nat ((n div 8) * 8)) (nat n))"
      by (rule unroll_split [OF s f i]) (simp_all add: unroll8_body_eq [OF rb _ _ b n(2)])
    have u4: "for_by 4 0 n (unroll4_body n A b i) 0
              = Inr ((n div 4) * 4, rsum A b (nat (i * n)) 0 (nat ((n div 4) * 4)))
          \<and> tail_loop n A b i ((n div 4) * 4) t
              = Inr (t + rsum A b (nat (i * n)) (nat ((n div 4) * 4)) (nat n))"
      by (rule unroll_split [OF s f i]) (simp_all add: unroll4_body_eq [OF rb _ _ b n(2)])
    have K: "nat ((n div w) * w) \<le> nat n" if "0 < w" for w
    proof -
      have "(n div w) * w = n - n mod w" by (simp add: minus_mod_eq_div_mult)
      moreover have "0 \<le> n mod w" using that by simp
      ultimately show ?thesis by simp
    qed
    have e: "spec_mv (nat n) A b ! nat i = rsum A b (nat (i * n)) 0 (nat n)"
      using i n(1) by (simp add: spec_mv_def spec_dot_rsum)
    have c8: "spec_mv (nat n) A b ! nat i
              = rsum A b (nat (i * n)) 0 (nat ((n div 8) * 8))
                + rsum A b (nat (i * n)) (nat ((n div 8) * 8)) (nat n)"
      unfolding e by (rule rsum_concat [symmetric]) (simp_all add: K)
    have c4: "spec_mv (nat n) A b ! nat i
              = rsum A b (nat (i * n)) 0 (nat ((n div 4) * 4))
                + rsum A b (nat (i * n)) (nat ((n div 4) * 4)) (nat n)"
      unfolding e by (rule rsum_concat [symmetric]) (simp_all add: K)
    have d: "spec_mv (nat n) A b ! nat i = (\<Sum>k = 0..<nat n. A ! (nat i * nat n + k) * b ! k)"
      using i by (simp add: spec_mv_def spec_dot_def)
    have m: "n - (n div 8) * 8 = n mod 8" "n - (n div 4) * 4 = n mod 4"
      by (simp_all add: minus_div_mult_eq_mod)
    from u8 u4 c8 c4 d m show ?thesis by blast
  qed
  have agree: "Mv_mult n A b c = Inr (spec_mv (nat n) A b)
       \<and> Mv_mult_unrolled n A b c = Mv_mult n A b c
       \<and> hw1_Mv_mult_unrolled n A b c = Mv_mult n A b c
       \<and> Mv_mult_interchanged n A b c = Mv_mult n A b c
       \<and> hw1_Mv_mult_interchanged n A b c = Mv_mult n A b c
       \<and> MatVecMult (Some A) (Some b) (Some c) n n
           = bind_res (Mv_mult n A b c) (\<lambda>c'. Inr (Some c'))
       \<and> Mv_mult_optimized n A b c = Mv_mult n A b c
       \<and> Mv_mult_avx2 n A b c = Mv_mult n A b c
       \<and> length (spec_mv (nat n) A b) = nat n"
    using f
    by (simp add: Mv_mult_eq [OF s] Mv_mult_interchanged_eq [OF s]
        hw1_Mv_mult_interchanged_eq [OF s] MatVecMult_eq [OF s]
        Mv_mult_unrolled_eq [OF s] hw1_Mv_mult_unrolled_eq [OF s]
        Mv_mult_optimized_eq [OF s] Mv_mult_avx2_eq [OF s] spec_mv_def)
  from agree split show ?thesis by blast
qed

theorem variants_agree_with_baseline_witness:
  "shaped 5 (replicate 25 1) (replicate 5 1) (replicate 5 0) \<and> (5 :: int) * 5 - 1 \<le> INT_MAX
   \<and> Mv_mult 5 (replicate 25 1) (replicate 5 1) (replicate 5 0) = Inr [5, 5, 5, 5, 5]
   \<and> Mv_mult_unrolled 5 (replicate 25 1) (replicate 5 1) (replicate 5 0) = Inr [5, 5, 5, 5, 5]
   \<and> hw1_Mv_mult_unrolled 5 (replicate 25 1) (replicate 5 1) (replicate 5 0) = Inr [5, 5, 5, 5, 5]
   \<and> Mv_mult_interchanged 5 (replicate 25 1) (replicate 5 1) (replicate 5 0) = Inr [5, 5, 5, 5, 5]
   \<and> Mv_mult_optimized 5 (replicate 25 1) (replicate 5 1) (replicate 5 0) = Inr [5, 5, 5, 5, 5]
   \<and> Mv_mult_avx2 5 (replicate 25 1) (replicate 5 1) (replicate 5 0) = Inr [5, 5, 5, 5, 5]
   \<and> for_by 4 0 5 (unroll4_body 5 (replicate 25 1) (replicate 5 1) 1) 0 = Inr (4, 4)
   \<and> tail_loop 5 (replicate 25 1) (replicate 5 1) 1 4 4 = Inr 5
   \<and> for_by 8 0 5 (unroll8_body 5 (replicate 25 1) (replicate 5 1) 1) 0 = Inr (0, 0)
   \<and> tail_loop 5 (replicate 25 1) (replicate 5 1) 1 0 0 = Inr 5"
proof -
  have s: "shaped 5 (replicate 25 1) (replicate 5 1) (replicate 5 0)"
    by (simp add: shaped_def INT_MAX_def)
  have f: "(5 :: int) * 5 - 1 \<le> INT_MAX" by (simp add: INT_MAX_def)
  have r: "rsum (replicate 25 1) (replicate 5 1) 5 0 4 = 4"
    "rsum (replicate 25 1) (replicate 5 1) 5 4 5 = 1"
    "rsum (replicate 25 1) (replicate 5 1) 5 0 5 = 5"
    by (simp_all add: rsum_def)
  have d: "(5 :: int) div 4 * 4 = 4" "(5 :: int) div 8 * 8 = 0" by simp_all
  have i: "nat (1 * 5) = 5" by simp
  have v: "spec_mv (nat 5) (replicate 25 1) (replicate 5 1) = [5, 5, 5, 5, 5]"
    by code_simp
  from variants_agree_with_baseline [OF s f]
  show ?thesis
    using s f unfolding v by (simp add: r d i)
qed

text \<open>
  The claim as stated, for every \<open>n \<ge> 0\<close>, fails at \<open>n = 46341\<close>: no variant returns a
  result there, the index \<open>i * n + k\<close> leaving \<^verbatim>\<open>int\<close> in the last row.
\<close>

theorem variants_overflow_counterexample:
  "Mv_mult_unrolled 46341 (replicate 2147488281 0) (replicate 46341 0) (replicate 46341 0)
     = Inl IntOverflow
   \<and> hw1_Mv_mult_unrolled 46341 (replicate 2147488281 0) (replicate 46341 0) (replicate 46341 0)
     = Inl IntOverflow
   \<and> Mv_mult_interchanged 46341 (replicate 2147488281 0) (replicate 46341 0) (replicate 46341 0)
     = Inl IntOverflow
   \<and> Mv_mult_optimized 46341 (replicate 2147488281 0) (replicate 46341 0) (replicate 46341 0)
     = Inl IntOverflow
   \<and> Mv_mult_avx2 46341 (replicate 2147488281 0) (replicate 46341 0) (replicate 46341 0)
     = Inl IntOverflow"
  by (simp add: Mv_mult_unrolled_eq hw1_Mv_mult_unrolled_eq Mv_mult_interchanged_eq
      Mv_mult_optimized_eq Mv_mult_avx2_eq shaped_def INT_MAX_def)

section \<open>The result does not depend on the output buffer\<close>

text \<open>
  Claim C10. For every \<open>n \<ge> 0\<close>, every \<open>A\<close> and \<open>b\<close> of the kernel's shape and any
  two initial contents \<open>c1\<close>, \<open>c2\<close> of the output vector, every kernel returns the
  same result from both: the baseline, interchanged and C kernels clear \<open>c\<close> before
  they accumulate, the unrolled and vectorized ones overwrite each \<open>c[i]\<close>.
\<close>

theorem result_independent_of_prior_c:
  assumes "shaped n A b c1" and "shaped n A b c2"
  shows "Mv_mult n A b c1 = Mv_mult n A b c2
       \<and> Mv_mult_interchanged n A b c1 = Mv_mult_interchanged n A b c2
       \<and> hw1_Mv_mult_interchanged n A b c1 = hw1_Mv_mult_interchanged n A b c2
       \<and> MatVecMult (Some A) (Some b) (Some c1) n n = MatVecMult (Some A) (Some b) (Some c2) n n
       \<and> Mv_mult_unrolled n A b c1 = Mv_mult_unrolled n A b c2
       \<and> hw1_Mv_mult_unrolled n A b c1 = hw1_Mv_mult_unrolled n A b c2
       \<and> Mv_mult_optimized n A b c1 = Mv_mult_optimized n A b c2
       \<and> Mv_mult_avx2 n A b c1 = Mv_mult_avx2 n A b c2"
  using assms
  by (simp add: Mv_mult_eq Mv_mult_interchanged_eq hw1_Mv_mult_interchanged_eq MatVecMult_eq
      Mv_mult_unrolled_eq hw1_Mv_mult_unrolled_eq Mv_mult_optimized_eq Mv_mult_avx2_eq)

theorem result_independent_of_prior_c_witness:
  "shaped 2 [1, 2, 3, 4] [5, 6] [7, 8] \<and> shaped 2 [1, 2, 3, 4] [5, 6] [0, 0]
   \<and> Mv_mult 2 [1, 2, 3, 4] [5, 6] [7, 8] = Mv_mult 2 [1, 2, 3, 4] [5, 6] [0, 0]
   \<and> Mv_mult_interchanged 2 [1, 2, 3, 4] [5, 6] [7, 8]
       = Mv_mult_interchanged 2 [1, 2, 3, 4] [5, 6] [0, 0]
   \<and> hw1_Mv_mult_interchanged 2 [1, 2, 3, 4] [5, 6] [7, 8]
       = hw1_Mv_mult_interchanged 2 [1, 2, 3, 4] [5, 6] [0, 0]
   \<and> MatVecMult (Some [1, 2, 3, 4]) (Some [5, 6]) (Some [7, 8]) 2 2
       = MatVecMult (Some [1, 2, 3, 4]) (Some [5, 6]) (Some [0, 0]) 2 2
   \<and> Mv_mult_unrolled 2 [1, 2, 3, 4] [5, 6] [7, 8] = Mv_mult_unrolled 2 [1, 2, 3, 4] [5, 6] [0, 0]
   \<and> hw1_Mv_mult_unrolled 2 [1, 2, 3, 4] [5, 6] [7, 8]
       = hw1_Mv_mult_unrolled 2 [1, 2, 3, 4] [5, 6] [0, 0]
   \<and> Mv_mult_optimized 2 [1, 2, 3, 4] [5, 6] [7, 8] = Mv_mult_optimized 2 [1, 2, 3, 4] [5, 6] [0, 0]
   \<and> Mv_mult_avx2 2 [1, 2, 3, 4] [5, 6] [7, 8] = Mv_mult_avx2 2 [1, 2, 3, 4] [5, 6] [0, 0]"
proof -
  have s: "shaped 2 [1, 2, 3, 4] [5, 6] [7, 8]" "shaped 2 [1, 2, 3, 4] [5, 6] [0, 0]"
    by (simp_all add: shaped_def INT_MAX_def)
  show ?thesis using result_independent_of_prior_c [OF s] s by simp
qed

section \<open>Generators\<close>

lemma for_up_total:
  assumes "P i s"
    and "\<And>j t. i \<le> j \<Longrightarrow> j < n \<Longrightarrow> P j t \<Longrightarrow> \<exists>t'. body j t = Inr t' \<and> P (j + 1) t'"
  shows "\<exists>t. for_up i n body s = Inr t \<and> P (max i n) t"
proof -
  have "case for_up i n body s of Inl e \<Rightarrow> False | Inr t \<Rightarrow> P (max i n) t"
  proof (rule for_up_rule [where P = P])
    show "P i s" by fact
  next
    fix j t
    assume "i \<le> j" "j < n" "P j t"
    from assms(2) [OF this] show "case body j t of Inl e \<Rightarrow> False | Inr t' \<Rightarrow> P (j + 1) t'"
      by auto
  qed
  then show ?thesis by (cases "for_up i n body s") auto
qed

lemma fill_row:
  fixes A :: "real list"
  assumes p: "0 \<le> p" and m: "0 \<le> m" and len: "p + m \<le> int (length A)"
    and body: "\<And>j A'. 0 \<le> j \<Longrightarrow> j < m \<Longrightarrow> length A' = length A \<Longrightarrow>
                 body j A' = Inr (A'[nat (p + j) := v j])"
  shows "\<exists>A'. for_up 0 m body A = Inr A' \<and> length A' = length A
           \<and> (\<forall>j<nat m. A' ! (nat p + j) = v (int j))
           \<and> (\<forall>q<nat p. A' ! q = A ! q)"
proof -
  define P where "P = (\<lambda>j (A' :: real list). 0 \<le> j \<and> j \<le> m \<and> length A' = length A
       \<and> (\<forall>r<nat j. A' ! (nat p + r) = v (int r)) \<and> (\<forall>q<nat p. A' ! q = A ! q))"
  have "\<exists>A'. for_up 0 m body A = Inr A' \<and> P (max 0 m) A'"
  proof (rule for_up_total)
    show "P 0 A" using m by (simp add: P_def)
  next
    fix j and A' :: "real list"
    assume j: "0 \<le> j" "j < m" "P j A'"
    then have l: "length A' = length A" by (simp add: P_def)
    have nat: "nat (j + 1) = Suc (nat j)" "nat (p + j) = nat p + nat j"
      using j p by (simp_all add: nat_add_distrib)
    have "nat p + nat j < length A" using j p len by linarith
    then show "\<exists>t'. body j A' = Inr t' \<and> P (j + 1) t'"
      using j p l unfolding body [OF j(1,2) l]
      by (auto simp: P_def nat nth_list_update less_Suc_eq)
  qed
  then show ?thesis using m by (auto simp: P_def max_def)
qed

lemma spec_A_nth:
  assumes "i < N" and "j < N"
  shows "spec_A N ! (i * N + j) = 1 / (real i + real j + 2)"
proof -
  have "i * N + j < N * N"
  proof -
    have "i * N + j < i * N + N" using assms by simp
    also have "\<dots> = (i + 1) * N" by simp
    also have "\<dots> \<le> N * N" using assms by (intro mult_le_mono1) simp
    finally show ?thesis .
  qed
  then show ?thesis using assms by (simp add: spec_A_def)
qed

lemma fits_index:
  assumes "0 \<le> i" and "i < n" and "0 \<le> j" and "j < n" and "n * n - 1 \<le> INT_MAX"
  shows "i * n + j \<le> INT_MAX" and "0 \<le> i * n" and "i * n \<le> INT_MAX" and "i + j \<le> INT_MAX"
    and "i * n + j < n * n"
proof -
  have "(i + 1) * n \<le> n * n" using assms by (intro mult_right_mono) auto
  then have a: "i * n + n \<le> n * n" by (simp add: algebra_simps)
  show "i * n + j < n * n" using a assms by simp
  then show b: "i * n + j \<le> INT_MAX" using assms by simp
  show c: "0 \<le> i * n" using assms by simp
  then show "i * n \<le> INT_MAX" using b assms by simp
  have "i * 1 \<le> i * n" using assms by (intro mult_left_mono) auto
  then show "i + j \<le> INT_MAX" using b by simp
qed

lemma generate_loop_eq:
  fixes g :: "int \<Rightarrow> real"
  assumes n: "0 \<le> n" and fit: "n * n - 1 \<le> INT_MAX"
    and A: "int (length A) = n * n" and b: "int (length b) = n"
  shows "for_up 0 n (\<lambda>i (A, b).
           bind_res (wr b i (g i)) (\<lambda>b.
           bind_res (for_up 0 n (\<lambda>j A.
                       bind_res (idx i n j) (\<lambda>q.
                       bind_res (chk (i + j)) (\<lambda>ij.
                         wr A q (1 / (real_of_int ij + 2))))) A) (\<lambda>A.
             Inr (A, b)))) (A, b)
         = Inr (spec_A (nat n), map (\<lambda>i. g (int i)) [0..<nat n])"
    (is "for_up 0 n ?body (A, b) = _")
proof -
  define hil where "hil = (\<lambda>q. 1 / (real (q div nat n) + real (q mod nat n) + 2))"
  define P where "P = (\<lambda>i (s :: real list \<times> real list). 0 \<le> i \<and> i \<le> n
       \<and> length (fst s) = length A \<and> length (snd s) = length b
       \<and> (\<forall>q<nat (i * n). fst s ! q = hil q) \<and> (\<forall>r<nat i. snd s ! r = g (int r)))"
  have "\<exists>t. for_up 0 n ?body (A, b) = Inr t \<and> P (max 0 n) t"
  proof (rule for_up_total)
    show "P 0 (A, b)" using n by (simp add: P_def)
  next
    fix i and s :: "real list \<times> real list"
    assume i: "0 \<le> i" "i < n" "P i s"
    obtain A1 b1 where s: "s = (A1, b1)" by (cases s)
    from i s have l: "length A1 = length A" "length b1 = length b"
      and old: "\<forall>q<nat (i * n). A1 ! q = hil q" "\<forall>r<nat i. b1 ! r = g (int r)"
      by (simp_all add: P_def)
    have in_row: "i * n + n \<le> int (length A1)"
    proof -
      have "(i + 1) * n \<le> n * n" using i by (intro mult_right_mono) auto
      then show ?thesis using l A by (simp add: algebra_simps)
    qed
    have "\<exists>A'. for_up 0 n (\<lambda>j A. bind_res (idx i n j) (\<lambda>q. bind_res (chk (i + j))
                  (\<lambda>ij. wr A q (1 / (real_of_int ij + 2))))) A1 = Inr A'
            \<and> length A' = length A1
            \<and> (\<forall>j<nat n. A' ! (nat (i * n) + j) = 1 / (real_of_int (i + int j) + 2))
            \<and> (\<forall>q<nat (i * n). A' ! q = A1 ! q)"
    proof (rule fill_row [where v = "\<lambda>j. 1 / (real_of_int (i + j) + 2)"])
      show "0 \<le> i * n" using i by simp
      show "0 \<le> n" by fact
      show "i * n + n \<le> int (length A1)" by fact
    next
      fix j and A' :: "real list"
      assume j: "0 \<le> j" "j < n" "length A' = length A1"
      note f = fits_index [OF i(1,2) j(1,2) fit]
      show "bind_res (idx i n j) (\<lambda>q. bind_res (chk (i + j))
              (\<lambda>ij. wr A' q (1 / (real_of_int ij + 2))))
            = Inr (A'[nat (i * n + j) := 1 / (real_of_int (i + j) + 2)])"
      proof -
        have lo: "- 2147483648 \<le> i * n" using f(2) by linarith
        show ?thesis
          using f(1,3,4,5) lo i j l A
          by (simp add: idx_def chk_def wr_def INT_MIN_def)
      qed
    qed
    then obtain A' where A': "for_up 0 n (\<lambda>j A. bind_res (idx i n j) (\<lambda>q. bind_res (chk (i + j))
                  (\<lambda>ij. wr A q (1 / (real_of_int ij + 2))))) A1 = Inr A'"
        "length A' = length A1"
        "\<forall>j<nat n. A' ! (nat (i * n) + j) = 1 / (real_of_int (i + int j) + 2)"
        "\<forall>q<nat (i * n). A' ! q = A1 ! q"
      by blast
    have nat: "nat (i + 1) = Suc (nat i)" "nat ((i + 1) * n) = nat (i * n) + nat n"
      "nat (i * n) = nat i * nat n"
      using i n by (simp_all add: nat_add_distrib nat_mult_distrib algebra_simps)
    have filled: "A' ! q = hil q" if q: "q < nat (i * n) + nat n" for q
    proof (cases "q < nat (i * n)")
      case True
      with A'(4) old(1) show ?thesis by simp
    next
      case False
      define j where "j = q - nat (i * n)"
      have j: "j < nat n" "q = nat (i * n) + j" using False q by (simp_all add: j_def)
      have "q div nat n = nat i" "q mod nat n = j"
        using j i by (simp_all add: nat(3))
      then have "hil q = 1 / (real_of_int (i + int j) + 2)"
        using i by (simp add: hil_def)
      with A'(3) j show ?thesis by simp
    qed
    have wb: "wr b1 i (g i) = Inr (b1[nat i := g i])"
      using i l b by (simp add: wr_def)
    have "?body i s = Inr (A', b1[nat i := g i])"
      by (simp add: s wb A'(1))
    moreover have "nat i < length b1" using i l b by simp
    then have "P (i + 1) (A', b1[nat i := g i])"
      using i l A'(2) old(2) filled
      by (auto simp: P_def nat nth_list_update less_Suc_eq)
    ultimately show "\<exists>t'. ?body i s = Inr t' \<and> P (i + 1) t'" by blast
  qed
  then obtain t where t: "for_up 0 n ?body (A, b) = Inr t" "P n t"
    using n by (auto simp: max_def)
  obtain A' b' where s: "t = (A', b')" by (cases t)
  have nn: "nat (n * n) = nat n * nat n" using n by (simp add: nat_mult_distrib)
  have "A' = spec_A (nat n)"
    using t(2) s A nn
    by (intro nth_equalityI) (auto simp: P_def spec_A_def hil_def)
  moreover have "b' = map (\<lambda>i. g (int i)) [0..<nat n]"
    using t(2) s b by (intro nth_equalityI) (auto simp: P_def)
  ultimately show ?thesis using t(1) s by simp
qed

lemma proj1_generate_eq:
  assumes "0 \<le> n" and "n * n - 1 \<le> INT_MAX"
    and "int (length A) = n * n" and "int (length b) = n"
  shows "proj1_generate n A b = Inr (spec_A (nat n), spec_b1 (nat n))"
  unfolding proj1_generate_def spec_b1_def
  using generate_loop_eq [OF assms, of "\<lambda>i. 1 / (real_of_int i + 1)"] by simp

lemma hw1_generate_eq:
  assumes "0 \<le> n" and "n * n - 1 \<le> INT_MAX"
    and "int (length A) = n * n" and "int (length b) = n"
  shows "hw1_generate n A b = Inr (spec_A (nat n), spec_b2 (nat n))"
  unfolding hw1_generate_def spec_b2_def
  using generate_loop_eq [OF assms, of "\<lambda>i. 1 / (real_of_int i + 2)"] by simp

lemma InitMatrix_eq:
  assumes R: "0 \<le> R" and Cc: "0 < Cc" and fit: "R * Cc - 1 \<le> INT_MAX"
    and small: "R + Cc \<le> INT_MAX" and A: "int (length A) = R * Cc"
  shows "InitMatrix (Some A) R Cc =
           Inr (Some (map (\<lambda>q. 1 / (real (q div nat Cc) + real (q mod nat Cc) + 2))
                        [0..<nat (R * Cc)]))"
proof -
  define hil where "hil = (\<lambda>q. 1 / (real (q div nat Cc) + real (q mod nat Cc) + 2))"
  let ?cell = "\<lambda>i j (A :: real list). bind_res (idx i Cc j) (\<lambda>q. bind_res (chk (i + j))
                  (\<lambda>ij. bind_res (chk (ij + 2)) (\<lambda>d. wr A q (1 / real_of_int d))))"
  have cell: "bind_res (idx i Cc j) (\<lambda>q. bind_res (chk (i + j))
                  (\<lambda>ij. bind_res (chk (ij + 2)) (\<lambda>d. wr_p (Some xs) q (1 / real_of_int d))))
              = bind_res (?cell i j xs) (\<lambda>t'. Inr (Some t'))" for i j xs
    by (simp add: wr_p_def bind_res_assoc)
  have row: "for_up 0 Cc (\<lambda>j A. bind_res (idx i Cc j) (\<lambda>q. bind_res (chk (i + j))
                  (\<lambda>ij. bind_res (chk (ij + 2)) (\<lambda>d. wr_p A q (1 / real_of_int d))))) (Some xs)
             = bind_res (for_up 0 Cc (?cell i) xs) (\<lambda>t'. Inr (Some t'))" for i xs
    by (rule for_up_Some) (simp add: cell)
  have lift: "InitMatrix (Some A) R Cc
              = bind_res (for_up 0 R (\<lambda>i A. for_up 0 Cc (?cell i) A) A) (\<lambda>t'. Inr (Some t'))"
    unfolding InitMatrix_def by (rule for_up_Some) (simp add: row)
  define P where "P = (\<lambda>i (A' :: real list). 0 \<le> i \<and> i \<le> R \<and> length A' = length A
       \<and> (\<forall>q<nat (i * Cc). A' ! q = hil q))"
  have "\<exists>t. for_up 0 R (\<lambda>i A. for_up 0 Cc (?cell i) A) A = Inr t \<and> P (max 0 R) t"
  proof (rule for_up_total)
    show "P 0 A" using R by (simp add: P_def)
  next
    fix i and A1 :: "real list"
    assume i: "0 \<le> i" "i < R" "P i A1"
    then have l: "length A1 = length A" and old: "\<forall>q<nat (i * Cc). A1 ! q = hil q"
      by (simp_all add: P_def)
    have "(i + 1) * Cc \<le> R * Cc" using i Cc by (intro mult_right_mono) auto
    then have in_row: "i * Cc + Cc \<le> R * Cc" by (simp add: algebra_simps)
    have p0: "0 \<le> i * Cc" using i Cc by simp
    have "\<exists>A'. for_up 0 Cc (?cell i) A1 = Inr A' \<and> length A' = length A1
            \<and> (\<forall>j<nat Cc. A' ! (nat (i * Cc) + j) = 1 / real_of_int (i + int j + 2))
            \<and> (\<forall>q<nat (i * Cc). A' ! q = A1 ! q)"
    proof (rule fill_row [where v = "\<lambda>j. 1 / real_of_int (i + j + 2)"])
      show "0 \<le> i * Cc" by fact
      show "0 \<le> Cc" using Cc by simp
      show "i * Cc + Cc \<le> int (length A1)" using in_row l A by simp
    next
      fix j and A' :: "real list"
      assume j: "0 \<le> j" "j < Cc" "length A' = length A1"
      have lo: "- 2147483648 \<le> i * Cc" using p0 by linarith
      have hi: "i * Cc + j \<le> INT_MAX" "i * Cc \<le> INT_MAX" "i * Cc + j < R * Cc"
        using in_row j fit p0 by linarith+
      have ij: "i + j + 2 \<le> INT_MAX" using i j small by linarith
      show "?cell i j A' = Inr (A'[nat (i * Cc + j) := 1 / real_of_int (i + j + 2)])"
        using hi lo ij i j l A
        by (simp add: idx_def chk_def wr_def INT_MIN_def)
    qed
    then obtain A' where A': "for_up 0 Cc (?cell i) A1 = Inr A'" "length A' = length A1"
        "\<forall>j<nat Cc. A' ! (nat (i * Cc) + j) = 1 / real_of_int (i + int j + 2)"
        "\<forall>q<nat (i * Cc). A' ! q = A1 ! q"
      by blast
    have nat: "nat ((i + 1) * Cc) = nat (i * Cc) + nat Cc" "nat (i * Cc) = nat i * nat Cc"
      using i Cc by (simp_all add: nat_add_distrib nat_mult_distrib algebra_simps)
    have filled: "A' ! q = hil q" if q: "q < nat (i * Cc) + nat Cc" for q
    proof (cases "q < nat (i * Cc)")
      case True
      with A'(4) old show ?thesis by simp
    next
      case False
      define j where "j = q - nat (i * Cc)"
      have j: "j < nat Cc" "q = nat (i * Cc) + j" using False q by (simp_all add: j_def)
      have "q div nat Cc = nat i" "q mod nat Cc = j"
        using j i by (simp_all add: nat(2))
      then have "hil q = 1 / real_of_int (i + int j + 2)"
        using i by (simp add: hil_def)
      with A'(3) j show ?thesis by simp
    qed
    have "P (i + 1) A'"
      using i l A'(2) filled by (auto simp: P_def nat)
    with A'(1) show "\<exists>t'. for_up 0 Cc (?cell i) A1 = Inr t' \<and> P (i + 1) t'" by blast
  qed
  then obtain t where t: "for_up 0 R (\<lambda>i A. for_up 0 Cc (?cell i) A) A = Inr t" "P R t"
    using R by (auto simp: max_def)
  have "t = map hil [0..<nat (R * Cc)]"
    using t(2) A by (intro nth_equalityI) (auto simp: P_def)
  then show ?thesis using t(1) by (simp add: lift hil_def)
qed

lemma InitMatrix_idle:
  assumes "Rows \<le> 0"
  shows "InitMatrix M Rows Cols = Inr M"
  using assms by (simp add: InitMatrix_def for_up.simps [of 0 Rows])

lemma InitMatrix_null:
  assumes "0 < Rows" and "0 < Cols" and "Rows \<le> INT_MAX" and "Cols \<le> INT_MAX"
  shows "InitMatrix None Rows Cols = Inl NullPointer"
  using assms
  by (simp add: InitMatrix_def for_up.simps [of 0 Rows] for_up.simps [of 0 Cols]
      idx_def chk_def wr_p_def INT_MIN_def INT_MAX_def)

text \<open>
  Claim C6, as the code has it. For every dimension \<open>n > 0\<close> with \<open>n * n\<close> an
  \<^verbatim>\<open>int\<close> (\<open>n \<le> 46340\<close>) and buffers of the sizes the harness allocates, every
  generator sets \<open>A[i * n + j] = 1 / (i + j + 2)\<close> for all \<open>i\<close>, \<open>j\<close> in \<open>[0, n)\<close>; the
  generator of the \<^verbatim>\<open>proj1/\<close> programs sets \<open>b[i] = 1 / (i + 1)\<close>, those of
  \<^verbatim>\<open>hw1.cpp\<close> and \<^verbatim>\<open>Mv.c\<close> set \<open>b[i] = 1 / (i + 2)\<close>. No generator takes the
  variant as an argument, and its result does not depend on what the buffers held: all
  variants of one program receive the same inputs.
\<close>

theorem generators_fill_inputs:
  assumes "0 < n" and "n * n \<le> INT_MAX" and "int (length A) = n * n" and "int (length b) = n"
  shows "proj1_generate n A b = Inr (spec_A (nat n), spec_b1 (nat n))
       \<and> hw1_generate n A b = Inr (spec_A (nat n), spec_b2 (nat n))
       \<and> InitMatrix (Some A) n n = Inr (Some (spec_A (nat n)))
       \<and> InitMatrix (Some b) n 1 = Inr (Some (spec_b2 (nat n)))
       \<and> length (spec_A (nat n)) = nat n * nat n
       \<and> length (spec_b1 (nat n)) = nat n
       \<and> length (spec_b2 (nat n)) = nat n
       \<and> (\<forall>i<nat n. \<forall>j<nat n. spec_A (nat n) ! (i * nat n + j) = 1 / (real i + real j + 2))
       \<and> (\<forall>i<nat n. spec_b1 (nat n) ! i = 1 / (real i + 1))
       \<and> (\<forall>i<nat n. spec_b2 (nat n) ! i = 1 / (real i + 2))"
proof -
  have n0: "0 \<le> n" and fit: "n * n - 1 \<le> INT_MAX" using assms by simp_all
  have "n \<le> 46340" using sq_fits [of n 1] n0 fit by simp
  then have small: "n + n \<le> INT_MAX" "n + 1 \<le> INT_MAX" "n * 1 - 1 \<le> INT_MAX"
    by (simp_all add: INT_MAX_def)
  have nn: "nat (n * n) = nat n * nat n" using n0 by (simp add: nat_mult_distrib)
  have IA: "InitMatrix (Some A) n n = Inr (Some (spec_A (nat n)))"
    using InitMatrix_eq [of n n A] assms fit small by (simp add: spec_A_def nn)
  have IB: "InitMatrix (Some b) n 1 = Inr (Some (spec_b2 (nat n)))"
    using InitMatrix_eq [of n 1 b] assms small by (simp add: spec_b2_def)
  show ?thesis
    using proj1_generate_eq [OF n0 fit assms(3,4)] hw1_generate_eq [OF n0 fit assms(3,4)] IA IB
    by (simp add: spec_A_nth) (simp add: spec_A_def spec_b1_def spec_b2_def)
qed

theorem generators_fill_inputs_witness:
  "(0 :: int) < 2 \<and> (2 :: int) * 2 \<le> INT_MAX
   \<and> proj1_generate 2 [9, 9, 9, 9] [9, 9] = Inr ([1 / 2, 1 / 3, 1 / 3, 1 / 4], [1, 1 / 2])
   \<and> hw1_generate 2 [9, 9, 9, 9] [9, 9] = Inr ([1 / 2, 1 / 3, 1 / 3, 1 / 4], [1 / 2, 1 / 3])
   \<and> InitMatrix (Some [9, 9, 9, 9]) 2 2 = Inr (Some [1 / 2, 1 / 3, 1 / 3, 1 / 4])
   \<and> InitMatrix (Some [9, 9]) 2 1 = Inr (Some [1 / 2, 1 / 3])"
proof -
  have f: "(2 :: int) * 2 \<le> INT_MAX" by (simp add: INT_MAX_def)
  have v: "spec_A (nat 2) = [1 / 2, 1 / 3, 1 / 3, 1 / 4]" "spec_b1 (nat 2) = [1, 1 / 2]"
    "spec_b2 (nat 2) = [1 / 2, 1 / 3]"
    by code_simp+
  from generators_fill_inputs [of 2 "[9, 9, 9, 9]" "[9, 9]", OF _ f] f
  show ?thesis unfolding v by simp
qed

text \<open>
  The claim as stated, for every \<open>N > 0\<close>, fails at \<open>N = 46341\<close>: every harness
  stops in the size expression \<^verbatim>\<open>n * n\<close> before it generates anything, and the index
  \<^verbatim>\<open>i * n + j\<close> of the last element is not an \<^verbatim>\<open>int\<close> either.
\<close>

theorem generator_size_overflow_counterexample:
  "proj1_main Mv_mult fair_env [''Mv'', ''46341'']
     = \<lparr>out = [], err = [], ending = Undefined IntOverflow\<rparr>
   \<and> hw1_main fair_env [''hw1'', ''46341'']
     = \<lparr>out = [], err = [], ending = Undefined IntOverflow\<rparr>
   \<and> Mv_c_main fair_env [''Mv'', ''46341'']
     = \<lparr>out = [], err = [], ending = Undefined IntOverflow\<rparr>
   \<and> idx 46340 46341 46340 = Inl IntOverflow"
  by code_simp


section \<open>What the harnesses do\<close>

lemma chk_Inr: "chk v = Inr w \<Longrightarrow> w = v \<and> INT_MIN \<le> v \<and> v \<le> INT_MAX"
  by (auto simp: chk_def split: if_splits)

lemma atoi_range:
  assumes "atoi s = Inr N"
  shows "INT_MIN \<le> N" and "N \<le> INT_MAX"
  using assms
  by (auto simp: atoi_def INT_MIN_def INT_MAX_def dest!: chk_Inr split: list.splits if_splits)

lemma c_div_2: "0 \<le> N \<Longrightarrow> c_div N 2 = N div 2"
  by (cases "N = 0") (simp_all add: c_div_def)

lemma MatVecMult_empty: "MatVecMult A B (Some []) 0 0 = Inr (Some [])"
  by (simp add: MatVecMult_def memset0_def for_up.simps [of 0 0])

lemma Mv_c_main_eq:
  assumes argv: "length argv = 2" and N: "atoi (argv ! 1) = Inr N"
  shows "Mv_c_main e argv =
     (if INT_MAX < N * N then failed [] [] IntOverflow
      else if 0 < N then
        (if alloc_ok e 0 \<and> alloc_ok e 1 \<and> alloc_ok e 2 then
           \<lparr>out = report_line (clock e 1 - clock e 0) (resolution e) N
                  @ sample_line (spec_mv (nat N) (spec_A (nat N)) (spec_b2 (nat N)) ! nat (N div 2)),
            err = [], ending = Exit 0\<rparr>
         else failed []
                ((if alloc_ok e 0 then [] else allocation_report)
                 @ (if alloc_ok e 1 then [] else allocation_report)
                 @ (if alloc_ok e 2 then [] else allocation_report)) NullPointer)
      else if N = 0 then
        (if alloc_ok e 2 then
           failed (report_line (clock e 1 - clock e 0) (resolution e) 0)
             ((if alloc_ok e 0 then [] else allocation_report)
              @ (if alloc_ok e 1 then [] else allocation_report)) OutOfBounds
         else failed []
                ((if alloc_ok e 0 then [] else allocation_report)
                 @ (if alloc_ok e 1 then [] else allocation_report) @ allocation_report) NullPointer)
      else failed []
             ((if alloc_ok e 0 then [] else allocation_report) @ allocation_report @ allocation_report)
             NullPointer)"
proof -
  note r = atoi_range [OF N]
  have r': "- 2147483648 \<le> N" "N \<le> 2147483647" using r by (simp_all add: INT_MIN_def INT_MAX_def)
  have sq: "0 \<le> N * N" by simp
  then have sq': "- 2147483648 \<le> N * N" by linarith
  consider (big) "INT_MAX < N * N" | (pos) "N * N \<le> INT_MAX" "0 < N"
    | (zero) "N = 0" | (neg) "N * N \<le> INT_MAX" "N < 0"
    by (cases "N = 0"; cases "INT_MAX < N * N"; cases "0 < N") auto
  then show ?thesis
  proof cases
    case big
    then show ?thesis
      using argv N by (simp add: Mv_c_main_def CreateMatrix_def chk_def)
  next
    case zero
    then show ?thesis
      using argv N
      by (simp add: Mv_c_main_def CreateMatrix_def chk_def INT_MIN_def INT_MAX_def
          InitMatrix_idle memset0_def MatVecMult_empty rd_p_def rd_def c_div_def failed_def)
  next
    case neg
    then have "N * N \<le> 2147483647" by (simp add: INT_MAX_def)
    then have cN: "chk N = Inr N" "chk (N * N) = Inr (N * N)"
      using r' sq' by (simp_all add: chk_def INT_MIN_def INT_MAX_def)
    show ?thesis
      using argv N neg sq
      by (simp add: Mv_c_main_def CreateMatrix_def cN InitMatrix_idle memset0_def failed_def)
  next
    case pos
    then have "N * N \<le> 2147483647" by (simp add: INT_MAX_def)
    then have cN: "chk N = Inr N" "chk (N * N) = Inr (N * N)"
      using r' sq' by (simp_all add: chk_def INT_MIN_def INT_MAX_def)
    have fit: "N * N - 1 \<le> INT_MAX" using pos by simp
    have N1: "N * 1 - 1 \<le> INT_MAX" "N + 1 \<le> INT_MAX" "N + N \<le> INT_MAX"
    proof -
      have "N \<le> 46340" using sq_fits [of N 1] pos fit by simp
      then show "N * 1 - 1 \<le> INT_MAX" "N + 1 \<le> INT_MAX" "N + N \<le> INT_MAX"
        by (simp_all add: INT_MAX_def)
    qed
    have nn: "nat (N * N) = nat N * nat N" using pos by (simp add: nat_mult_distrib)
    have IA: "InitMatrix (Some (map (junk e) [0..<nat (N * N)])) N N = Inr (Some (spec_A (nat N)))"
      using InitMatrix_eq [of N N "map (junk e) [0..<nat (N * N)]"] pos fit N1
      by (simp add: spec_A_def nn)
    have IB: "InitMatrix (Some (map (junk e) [0..<nat N])) N 1 = Inr (Some (spec_b2 (nat N)))"
      using InitMatrix_eq [of N 1 "map (junk e) [0..<nat N]"] pos N1
      by (simp add: spec_b2_def)
    have IN: "InitMatrix None N N = Inl NullPointer" "InitMatrix None N 1 = Inl NullPointer"
      using pos r by (simp_all add: InitMatrix_null INT_MAX_def)
    have sh: "shaped N (spec_A (nat N)) (spec_b2 (nat N)) (replicate (nat N) 0)"
      using pos r by (simp add: shaped_def spec_A_def spec_b2_def nn [symmetric])
    have MV: "MatVecMult (Some (spec_A (nat N))) (Some (spec_b2 (nat N))) (Some (replicate (nat N) 0)) N N
              = Inr (Some (spec_mv (nat N) (spec_A (nat N)) (spec_b2 (nat N))))"
      using MatVecMult_eq [OF sh] fit by simp
    have half: "0 \<le> N div 2" "N div 2 < N" using pos by simp_all
    have RD: "rd_p (Some (spec_mv (nat N) (spec_A (nat N)) (spec_b2 (nat N)))) (c_div N 2)
              = Inr (spec_mv (nat N) (spec_A (nat N)) (spec_b2 (nat N)) ! nat (N div 2))"
      using pos half by (simp add: rd_p_def rd_def c_div_2 spec_mv_def)
    show ?thesis
      using argv N pos
      by (simp add: Mv_c_main_def CreateMatrix_def cN IA IB IN memset0_def MV RD failed_def)
  qed
qed

lemma checksum_loop_eq:
  assumes "0 \<le> n" and "length c = nat n"
  shows "checksum_loop n c = Inr (sum_list c)"
proof -
  define P where "P = (\<lambda>i (s :: real). 0 \<le> i \<and> i \<le> n \<and> s = sum_list (take (nat i) c))"
  have "\<exists>t. for_up 0 n (\<lambda>i sum_c. bind_res (rd c i) (\<lambda>ci. Inr (sum_c + ci))) 0 = Inr t
          \<and> P (max 0 n) t"
  proof (rule for_up_total)
    show "P 0 0" using assms by (simp add: P_def)
  next
    fix i and s :: real
    assume i: "0 \<le> i" "i < n" "P i s"
    have nat: "nat (i + 1) = Suc (nat i)" using i by simp
    have "nat i < length c" using i assms by simp
    then show "\<exists>t'. bind_res (rd c i) (\<lambda>ci. Inr (s + ci)) = Inr t' \<and> P (i + 1) t'"
      using i assms by (simp add: P_def rd_def nat take_Suc_conv_app_nth)
  qed
  then show ?thesis using assms by (auto simp: checksum_loop_def P_def max_def)
qed

lemma hw1_select_cases:
  assumes "hw1_select s = Some K"
  shows "K = Mv_mult_avx2 \<or> K = hw1_Mv_mult_unrolled \<or> K = hw1_Mv_mult_interchanged"
  using assms by (auto simp: hw1_select_def split: if_splits)

lemma hw1_run_eq:
  assumes r: "INT_MIN \<le> n" "n \<le> INT_MAX"
  shows "hw1_run e argv opt_type (Inr n) =
     (if INT_MAX < n * n then failed [] [] IntOverflow
      else if \<not> alloc_ok e 0 then \<lparr>out = [], err = [], ending = Terminate BadAlloc\<rparr>
      else if n < 0 then \<lparr>out = [], err = [], ending = Terminate LengthError\<rparr>
      else if \<not> alloc_ok e 1 \<or> \<not> alloc_ok e 2 then \<lparr>out = [], err = [], ending = Terminate BadAlloc\<rparr>
      else if hw1_select opt_type = None then
        \<lparr>out = [],
         err = [Str ''Error: Unknown optimization type '', Str apostrophe, Str opt_type,
                Str apostrophe, Endl] @ print_usage (prog_name argv),
         ending = Exit 1\<rparr>
      else if n = 0 then failed (report_line (clock e 1 - clock e 0) 1 0) [] OutOfBounds
      else
        \<lparr>out = report_line (clock e 1 - clock e 0) 1 n
               @ sample_line (spec_mv (nat n) (spec_A (nat n)) (spec_b2 (nat n)) ! nat (n div 2)),
         err = [], ending = Exit 0\<rparr>)"
proof -
  have sq: "- 2147483648 \<le> n * n"
  proof -
    have "0 \<le> n * n" by simp
    then show ?thesis by linarith
  qed
  show ?thesis
  proof (cases "INT_MAX < n * n")
    case True
    then show ?thesis by (simp add: hw1_run_def chk_def)
  next
    case False
    then have "n * n \<le> 2147483647" by (simp add: INT_MAX_def)
    then have cN: "chk (n * n) = Inr (n * n)"
      using sq by (simp add: chk_def INT_MIN_def INT_MAX_def)
    show ?thesis
    proof (cases "0 \<le> n \<and> alloc_ok e 0 \<and> alloc_ok e 1 \<and> alloc_ok e 2")
      case False
      then show ?thesis
        using \<open>\<not> INT_MAX < n * n\<close>
        by (auto simp: hw1_run_def cN vector_new_def)
    next
      case True
      then have n0: "0 \<le> n" and ok: "alloc_ok e 0" "alloc_ok e 1" "alloc_ok e 2" by simp_all
      have fit: "n * n - 1 \<le> INT_MAX" using \<open>\<not> INT_MAX < n * n\<close> by simp
      have nn: "nat (n * n) = nat n * nat n" using n0 by (simp add: nat_mult_distrib)
      have G: "hw1_generate n (replicate (nat (n * n)) 0) (replicate (nat n) 0)
               = Inr (spec_A (nat n), spec_b2 (nat n))"
        using n0 fit by (intro hw1_generate_eq) simp_all
      have sh: "shaped n (spec_A (nat n)) (spec_b2 (nat n)) (replicate (nat n) 0)"
        using n0 r by (simp add: shaped_def spec_A_def spec_b2_def nn [symmetric])
      have K: "K n (spec_A (nat n)) (spec_b2 (nat n)) (replicate (nat n) 0)
               = Inr (spec_mv (nat n) (spec_A (nat n)) (spec_b2 (nat n)))"
        if "hw1_select opt_type = Some K" for K
        using hw1_select_cases [OF that] fit
          Mv_mult_avx2_eq [OF sh] hw1_Mv_mult_unrolled_eq [OF sh] hw1_Mv_mult_interchanged_eq [OF sh]
        by auto
      show ?thesis
      proof (cases "hw1_select opt_type")
        case None
        then show ?thesis
          using True \<open>\<not> INT_MAX < n * n\<close> by (simp add: hw1_run_def cN vector_new_def G)
      next
        case (Some K)
        show ?thesis
        proof (cases "n = 0")
          case True
          then show ?thesis
            using ok \<open>\<not> INT_MAX < n * n\<close> Some K [OF Some] G
            by (simp add: hw1_run_def chk_def INT_MIN_def INT_MAX_def vector_new_def spec_mv_def
                rd_def c_div_def failed_def)
        next
          case False
          with n0 have pos: "0 < n" by simp
          then have half: "0 \<le> n div 2" "n div 2 < n" by simp_all
          have RD: "rd (spec_mv (nat n) (spec_A (nat n)) (spec_b2 (nat n))) (c_div n 2)
              = Inr (spec_mv (nat n) (spec_A (nat n)) (spec_b2 (nat n)) ! nat (n div 2))"
            using pos half by (simp add: rd_def c_div_2 spec_mv_def)
          show ?thesis
            using ok pos \<open>\<not> INT_MAX < n * n\<close> Some K [OF Some] G
            by (simp add: hw1_run_def cN vector_new_def RD)
        qed
      qed
    qed
  qed
qed

lemma proj1_main_eq:
  assumes argv: "length argv = 2" and N: "atoi (argv ! 1) = Inr n"
    and K: "\<And>A b c. shaped n A b c \<Longrightarrow> variant n A b c =
              (if n * n - 1 \<le> INT_MAX then Inr (spec_mv (nat n) A b) else Inl IntOverflow)"
  shows "proj1_main variant e argv =
     (if n \<le> 0 then
        \<lparr>out = [], err = [Str ''Matrix size must be a positive integer.'', Endl], ending = Exit 1\<rparr>
      else if INT_MAX < n * n then failed [] [] IntOverflow
      else if \<not> alloc_ok e 0 \<or> \<not> alloc_ok e 1 \<or> \<not> alloc_ok e 2 then
        \<lparr>out = [], err = [], ending = Terminate BadAlloc\<rparr>
      else
        \<lparr>out = [Str ''n = '', IntVal n, Endl,
                Str ''Execution time: '', Val (Finite (clock e 1 - clock e 0)), Str '' seconds'', Endl,
                Str ''Checksum (sum of c elements): '',
                Val (Finite (sum_list (spec_mv (nat n) (spec_A (nat n)) (spec_b1 (nat n))))), Endl],
         err = [], ending = Exit 0\<rparr>)"
proof -
  note r = atoi_range [OF N]
  show ?thesis
  proof (cases "0 < n \<and> n * n \<le> INT_MAX")
    case False
    then show ?thesis
      using argv N by (auto simp: proj1_main_def chk_def)
  next
    case True
    then have pos: "0 < n" and le: "n * n \<le> INT_MAX" by simp_all
    have "- 2147483648 \<le> n * n"
    proof -
      have "0 \<le> n * n" by simp
      then show ?thesis by linarith
    qed
    moreover have "n * n \<le> 2147483647" using le by (simp add: INT_MAX_def)
    ultimately have cN: "chk (n * n) = Inr (n * n)"
      by (simp add: chk_def INT_MIN_def INT_MAX_def)
    have fit: "n * n - 1 \<le> INT_MAX" using le by simp
    have nn: "nat (n * n) = nat n * nat n" using pos by (simp add: nat_mult_distrib)
    have G: "proj1_generate n (replicate (nat (n * n)) 0) (replicate (nat n) 0)
               = Inr (spec_A (nat n), spec_b1 (nat n))"
      using pos fit by (intro proj1_generate_eq) simp_all
    have sh: "shaped n (spec_A (nat n)) (spec_b1 (nat n)) (replicate (nat n) 0)"
      using pos r by (simp add: shaped_def spec_A_def spec_b1_def nn [symmetric])
    have C: "checksum_loop n (spec_mv (nat n) (spec_A (nat n)) (spec_b1 (nat n)))
             = Inr (sum_list (spec_mv (nat n) (spec_A (nat n)) (spec_b1 (nat n))))"
      using pos by (intro checksum_loop_eq) (simp_all add: spec_mv_def)
    show ?thesis
      using argv N pos le
      by (auto simp: proj1_main_def cN vector_new_def G K [OF sh] fit C)
  qed
qed

lemma throughput_eq:
  assumes "t \<noteq> 0"
  shows "fdiv (2 * real_of_int N * real_of_int N * (1 / 1000)) t
         = Finite (2 * (real_of_int N)\<^sup>2 * (1 / 10 ^ 9) / (t * (1 / 10 ^ 6)))"
  using assms by (simp add: fdiv_def power2_eq_square field_simps)

lemma Mv_c_main_run:
  assumes "atoi s = Inr N" and "0 < N" and "N * N \<le> INT_MAX"
    and "alloc_ok e 0" and "alloc_ok e 1" and "alloc_ok e 2"
  shows "Mv_c_main e [p, s] =
           \<lparr>out = report_line (clock e 1 - clock e 0) (resolution e) N
                  @ sample_line (spec_mv (nat N) (spec_A (nat N)) (spec_b2 (nat N)) ! nat (N div 2)),
            err = [], ending = Exit 0\<rparr>"
  using Mv_c_main_eq [of "[p, s]" N e] assms by simp

lemma hw1_main_run:
  assumes "atoi s = Inr N" and "0 < N" and "N * N \<le> INT_MAX"
    and "alloc_ok e 0" and "alloc_ok e 1" and "alloc_ok e 2"
    and "sel \<in> {[''avx2''], [''unroll''], [''interchange''], []}"
  shows "hw1_main e (p # sel @ [s]) =
           \<lparr>out = report_line (clock e 1 - clock e 0) 1 N
                  @ sample_line (spec_mv (nat N) (spec_A (nat N)) (spec_b2 (nat N)) ! nat (N div 2)),
            err = [], ending = Exit 0\<rparr>"
proof -
  note r = atoi_range [OF assms(1)]
  have run: "hw1_run e argv opt (atoi s) =
           \<lparr>out = report_line (clock e 1 - clock e 0) 1 N
                  @ sample_line (spec_mv (nat N) (spec_A (nat N)) (spec_b2 (nat N)) ! nat (N div 2)),
            err = [], ending = Exit 0\<rparr>"
    if "hw1_select opt \<noteq> None" for argv opt
    using that assms(2-6) unfolding assms(1) hw1_run_eq [OF r] by simp
  have sel: "hw1_select ''avx2'' \<noteq> None" "hw1_select ''unroll'' \<noteq> None"
    "hw1_select ''interchange'' \<noteq> None"
    by (simp_all add: hw1_select_def)
  show ?thesis
    using assms(7) run sel by (auto simp: hw1_main_def)
qed

lemma proj1_main_run:
  assumes "atoi s = Inr N" and "0 < N" and "N * N \<le> INT_MAX"
    and "alloc_ok e 0" and "alloc_ok e 1" and "alloc_ok e 2"
    and K: "K \<in> {Mv_mult, Mv_mult_interchanged, Mv_mult_unrolled, Mv_mult_optimized}"
  shows "proj1_main K e [p, s] =
           \<lparr>out = [Str ''n = '', IntVal N, Endl,
                   Str ''Execution time: '', Val (Finite (clock e 1 - clock e 0)), Str '' seconds'', Endl,
                   Str ''Checksum (sum of c elements): '',
                   Val (Finite (sum_list (spec_mv (nat N) (spec_A (nat N)) (spec_b1 (nat N))))), Endl],
            err = [], ending = Exit 0\<rparr>"
proof -
  have Keq: "K N A b c = (if N * N - 1 \<le> INT_MAX then Inr (spec_mv (nat N) A b) else Inl IntOverflow)"
    if "shaped N A b c" for A b c
    using K that Mv_mult_eq Mv_mult_interchanged_eq Mv_mult_unrolled_eq Mv_mult_optimized_eq
    by auto
  have a: "length [p, s] = 2" "atoi ([p, s] ! 1) = Inr N" using assms(1) by simp_all
  have "proj1_main K e [p, s] =
     (if N \<le> 0 then
        \<lparr>out = [], err = [Str ''Matrix size must be a positive integer.'', Endl], ending = Exit 1\<rparr>
      else if INT_MAX < N * N then failed [] [] IntOverflow
      else if \<not> alloc_ok e 0 \<or> \<not> alloc_ok e 1 \<or> \<not> alloc_ok e 2 then
        \<lparr>out = [], err = [], ending = Terminate BadAlloc\<rparr>
      else
        \<lparr>out = [Str ''n = '', IntVal N, Endl,
                Str ''Execution time: '', Val (Finite (clock e 1 - clock e 0)), Str '' seconds'', Endl,
                Str ''Checksum (sum of c elements): '',
                Val (Finite (sum_list (spec_mv (nat N) (spec_A (nat N)) (spec_b1 (nat N))))), Endl],
         err = [], ending = Exit 0\<rparr>)"
    by (rule proj1_main_eq [OF a]) (rule Keq)
  then show ?thesis using assms(2-6) by simp
qed

section \<open>What a successful run reports\<close>

text \<open>
  Claim C7, as the code has it. For a dimension \<open>0 < N\<close> with \<open>N * N\<close> an \<^verbatim>\<open>int\<close>
  (that is \<open>N \<le> 46340\<close>) and allocations that succeed, \<^verbatim>\<open>Mv.c\<close> and \<^verbatim>\<open>hw1.cpp\<close> (with
  one of its selectors, or none) end with exit status 0 and have printed, on standard
  output and nothing on the error stream, the elapsed time \<open>t\<close> in microseconds, the
  timer resolution, the quotient \<^verbatim>\<open>2.0*N*N*1e-3/t\<close> in Gflop/s and the sample \<open>c[N/2]\<close>
  of the product, which is an element of \<open>c\<close>. The quotient is the throughput
  \<open>2 * N\<^sup>2 * 10\<^sup>-\<^sup>9\<close> divided by the elapsed time in seconds, \<open>t * 10\<^sup>-\<^sup>6\<close>, when the two
  timer readings differ, and no finite number when they are equal. The programs of
  \<^verbatim>\<open>proj1/\<close> then end with exit status 0 and have printed \<open>n\<close>, the elapsed time in
  seconds and the sum of the elements of \<open>c\<close>: no throughput.
\<close>

theorem successful_runs_report:
  assumes "atoi s = Inr N" and "0 < N" and "N * N \<le> INT_MAX"
    and "alloc_ok e 0" and "alloc_ok e 1" and "alloc_ok e 2"
  shows "Mv_c_main e [p, s] =
           \<lparr>out = [Endl, Str ''Time = '', Val (Finite (clock e 1 - clock e 0)), Str '' us'', Tab,
                   Str ''Timer Resolution = '', Val (Finite (resolution e)), Str '' us'', Tab,
                   Str ''Performance = '',
                   Val (fdiv (2 * real_of_int N * real_of_int N * (1 / 1000)) (clock e 1 - clock e 0)),
                   Str '' Gflop/s'', Endl,
                   Str ''C[N/2] = '',
                   Val (Finite (spec_mv (nat N) (spec_A (nat N)) (spec_b2 (nat N)) ! nat (N div 2))),
                   Endl, Endl],
            err = [], ending = Exit 0\<rparr>
       \<and> (\<forall>sel \<in> {[''avx2''], [''unroll''], [''interchange''], []}.
            hw1_main e (p # sel @ [s]) =
           \<lparr>out = [Endl, Str ''Time = '', Val (Finite (clock e 1 - clock e 0)), Str '' us'', Tab,
                   Str ''Timer Resolution = '', Val (Finite 1), Str '' us'', Tab,
                   Str ''Performance = '',
                   Val (fdiv (2 * real_of_int N * real_of_int N * (1 / 1000)) (clock e 1 - clock e 0)),
                   Str '' Gflop/s'', Endl,
                   Str ''C[N/2] = '',
                   Val (Finite (spec_mv (nat N) (spec_A (nat N)) (spec_b2 (nat N)) ! nat (N div 2))),
                   Endl, Endl],
            err = [], ending = Exit 0\<rparr>)
       \<and> (clock e 1 \<noteq> clock e 0 \<longrightarrow>
            fdiv (2 * real_of_int N * real_of_int N * (1 / 1000)) (clock e 1 - clock e 0)
              = Finite (2 * (real_of_int N)\<^sup>2 * (1 / 10 ^ 9) / ((clock e 1 - clock e 0) * (1 / 10 ^ 6))))
       \<and> (clock e 1 = clock e 0 \<longrightarrow>
            fdiv (2 * real_of_int N * real_of_int N * (1 / 1000)) (clock e 1 - clock e 0) = NonFinite)
       \<and> nat (N div 2) < length (spec_mv (nat N) (spec_A (nat N)) (spec_b2 (nat N)))
       \<and> (\<forall>K \<in> {Mv_mult, Mv_mult_interchanged, Mv_mult_unrolled, Mv_mult_optimized}.
            proj1_main K e [p, s] =
           \<lparr>out = [Str ''n = '', IntVal N, Endl,
                   Str ''Execution time: '', Val (Finite (clock e 1 - clock e 0)), Str '' seconds'', Endl,
                   Str ''Checksum (sum of c elements): '',
                   Val (Finite (sum_list (spec_mv (nat N) (spec_A (nat N)) (spec_b1 (nat N))))), Endl],
            err = [], ending = Exit 0\<rparr>)"
proof -
  have t1: "clock e 1 \<noteq> clock e 0 \<longrightarrow>
            fdiv (2 * real_of_int N * real_of_int N * (1 / 1000)) (clock e 1 - clock e 0)
              = Finite (2 * (real_of_int N)\<^sup>2 * (1 / 10 ^ 9) / ((clock e 1 - clock e 0) * (1 / 10 ^ 6)))"
    using throughput_eq [of "clock e 1 - clock e 0" N] by simp
  have t2: "clock e 1 = clock e 0 \<longrightarrow>
            fdiv (2 * real_of_int N * real_of_int N * (1 / 1000)) (clock e 1 - clock e 0) = NonFinite"
    by (simp add: fdiv_def)
  have l: "nat (N div 2) < length (spec_mv (nat N) (spec_A (nat N)) (spec_b2 (nat N)))"
    using assms(2) by (simp add: spec_mv_def)
  have mv: "Mv_c_main e [p, s] =
           \<lparr>out = [Endl, Str ''Time = '', Val (Finite (clock e 1 - clock e 0)), Str '' us'', Tab,
                   Str ''Timer Resolution = '', Val (Finite (resolution e)), Str '' us'', Tab,
                   Str ''Performance = '',
                   Val (fdiv (2 * real_of_int N * real_of_int N * (1 / 1000)) (clock e 1 - clock e 0)),
                   Str '' Gflop/s'', Endl,
                   Str ''C[N/2] = '',
                   Val (Finite (spec_mv (nat N) (spec_A (nat N)) (spec_b2 (nat N)) ! nat (N div 2))),
                   Endl, Endl],
            err = [], ending = Exit 0\<rparr>"
    by (simp only: Mv_c_main_run [OF assms] report_line_def sample_line_def append.simps)
  have hw: "\<forall>sel \<in> {[''avx2''], [''unroll''], [''interchange''], []}.
            hw1_main e (p # sel @ [s]) =
           \<lparr>out = [Endl, Str ''Time = '', Val (Finite (clock e 1 - clock e 0)), Str '' us'', Tab,
                   Str ''Timer Resolution = '', Val (Finite 1), Str '' us'', Tab,
                   Str ''Performance = '',
                   Val (fdiv (2 * real_of_int N * real_of_int N * (1 / 1000)) (clock e 1 - clock e 0)),
                   Str '' Gflop/s'', Endl,
                   Str ''C[N/2] = '',
                   Val (Finite (spec_mv (nat N) (spec_A (nat N)) (spec_b2 (nat N)) ! nat (N div 2))),
                   Endl, Endl],
            err = [], ending = Exit 0\<rparr>"
  proof
    fix sel :: "string list"
    assume "sel \<in> {[''avx2''], [''unroll''], [''interchange''], []}"
    from hw1_main_run [OF assms this]
    show "hw1_main e (p # sel @ [s]) =
           \<lparr>out = [Endl, Str ''Time = '', Val (Finite (clock e 1 - clock e 0)), Str '' us'', Tab,
                   Str ''Timer Resolution = '', Val (Finite 1), Str '' us'', Tab,
                   Str ''Performance = '',
                   Val (fdiv (2 * real_of_int N * real_of_int N * (1 / 1000)) (clock e 1 - clock e 0)),
                   Str '' Gflop/s'', Endl,
                   Str ''C[N/2] = '',
                   Val (Finite (spec_mv (nat N) (spec_A (nat N)) (spec_b2 (nat N)) ! nat (N div 2))),
                   Endl, Endl],
            err = [], ending = Exit 0\<rparr>"
      by (simp only: report_line_def sample_line_def append.simps)
  qed
  from mv hw t1 t2 l proj1_main_run [OF assms] show ?thesis by blast
qed

theorem successful_runs_report_witness:
  "atoi ''2'' = Inr 2 \<and> (0 :: int) < 2 \<and> (2 :: int) * 2 \<le> INT_MAX
   \<and> alloc_ok fair_env 0 \<and> alloc_ok fair_env 1 \<and> alloc_ok fair_env 2
   \<and> Mv_c_main fair_env [''Mv'', ''2''] =
       \<lparr>out = [Endl, Str ''Time = '', Val (Finite 100), Str '' us'', Tab,
               Str ''Timer Resolution = '', Val (Finite 1), Str '' us'', Tab,
               Str ''Performance = '', Val (Finite (1 / 12500)), Str '' Gflop/s'', Endl,
               Str ''C[N/2] = '', Val (Finite (1 / 4)), Endl, Endl],
        err = [], ending = Exit 0\<rparr>
   \<and> hw1_main fair_env [''Mv'', ''unroll'', ''2''] =
       \<lparr>out = [Endl, Str ''Time = '', Val (Finite 100), Str '' us'', Tab,
               Str ''Timer Resolution = '', Val (Finite 1), Str '' us'', Tab,
               Str ''Performance = '', Val (Finite (1 / 12500)), Str '' Gflop/s'', Endl,
               Str ''C[N/2] = '', Val (Finite (1 / 4)), Endl, Endl],
        err = [], ending = Exit 0\<rparr>
   \<and> proj1_main Mv_mult_unrolled fair_env [''Mv'', ''2''] =
       \<lparr>out = [Str ''n = '', IntVal 2, Endl,
               Str ''Execution time: '', Val (Finite 100), Str '' seconds'', Endl,
               Str ''Checksum (sum of c elements): '', Val (Finite (9 / 8)), Endl],
        err = [], ending = Exit 0\<rparr>"
proof -
  have a: "atoi ''2'' = Inr 2" by code_simp
  have z: "(0 :: int) < 2" by simp
  have f: "(2 :: int) * 2 \<le> INT_MAX" by (simp add: INT_MAX_def)
  have o: "alloc_ok fair_env 0" "alloc_ok fair_env 1" "alloc_ok fair_env 2"
    by (simp_all add: fair_env_def)
  have c: "clock fair_env 1 - clock fair_env 0 = 100" "resolution fair_env = 1"
    by (simp_all add: fair_env_def)
  have v: "spec_mv (nat 2) (spec_A (nat 2)) (spec_b2 (nat 2)) ! nat (2 div 2) = 1 / 4"
    "sum_list (spec_mv (nat 2) (spec_A (nat 2)) (spec_b1 (nat 2))) = 9 / 8"
    by code_simp+
  have d: "fdiv (2 * real_of_int 2 * real_of_int 2 * (1 / 1000)) 100 = Finite (1 / 12500)"
    by (simp add: fdiv_def)
  note t = successful_runs_report [of "''2''" 2 fair_env "''Mv''", OF a z f o, unfolded c v d]
  have 1: "Mv_c_main fair_env [''Mv'', ''2''] =
       \<lparr>out = [Endl, Str ''Time = '', Val (Finite 100), Str '' us'', Tab,
               Str ''Timer Resolution = '', Val (Finite 1), Str '' us'', Tab,
               Str ''Performance = '', Val (Finite (1 / 12500)), Str '' Gflop/s'', Endl,
               Str ''C[N/2] = '', Val (Finite (1 / 4)), Endl, Endl],
        err = [], ending = Exit 0\<rparr>"
    using t by blast
  have "hw1_main fair_env (''Mv'' # [''unroll''] @ [''2'']) =
       \<lparr>out = [Endl, Str ''Time = '', Val (Finite 100), Str '' us'', Tab,
               Str ''Timer Resolution = '', Val (Finite 1), Str '' us'', Tab,
               Str ''Performance = '', Val (Finite (1 / 12500)), Str '' Gflop/s'', Endl,
               Str ''C[N/2] = '', Val (Finite (1 / 4)), Endl, Endl],
        err = [], ending = Exit 0\<rparr>"
    using t by blast
  then have 2: "hw1_main fair_env [''Mv'', ''unroll'', ''2''] =
       \<lparr>out = [Endl, Str ''Time = '', Val (Finite 100), Str '' us'', Tab,
               Str ''Timer Resolution = '', Val (Finite 1), Str '' us'', Tab,
               Str ''Performance = '', Val (Finite (1 / 12500)), Str '' Gflop/s'', Endl,
               Str ''C[N/2] = '', Val (Finite (1 / 4)), Endl, Endl],
        err = [], ending = Exit 0\<rparr>"
    by (simp only: append.simps)
  have 3: "proj1_main Mv_mult_unrolled fair_env [''Mv'', ''2''] =
       \<lparr>out = [Str ''n = '', IntVal 2, Endl,
               Str ''Execution time: '', Val (Finite 100), Str '' seconds'', Endl,
               Str ''Checksum (sum of c elements): '', Val (Finite (9 / 8)), Endl],
        err = [], ending = Exit 0\<rparr>"
    using t by blast
  from a f o 1 2 3 show ?thesis by simp
qed

text \<open>
  The claim as stated fails on the programs of \<^verbatim>\<open>proj1/\<close>: the successful run of the
  baseline program for \<open>N = 1\<close>, measured at 100 seconds, prints three values, and
  the throughput \<open>2 * 1\<^sup>2 * 10\<^sup>-\<^sup>9 / 100\<close> is not among them.
\<close>

theorem proj1_prints_no_throughput_counterexample:
  "ending (proj1_main Mv_mult fair_env [''Mv'', ''1'']) = Exit 0
   \<and> out (proj1_main Mv_mult fair_env [''Mv'', ''1'']) =
       [Str ''n = '', IntVal 1, Endl,
        Str ''Execution time: '', Val (Finite 100), Str '' seconds'', Endl,
        Str ''Checksum (sum of c elements): '', Val (Finite (1 / 2)), Endl]
   \<and> Val (Finite (2 * 1\<^sup>2 * (1 / 10 ^ 9) / 100)) \<notin> set (out (proj1_main Mv_mult fair_env [''Mv'', ''1'']))"
proof -
  have o: "proj1_main Mv_mult fair_env [''Mv'', ''1''] =
     \<lparr>out = [Str ''n = '', IntVal 1, Endl,
        Str ''Execution time: '', Val (Finite 100), Str '' seconds'', Endl,
        Str ''Checksum (sum of c elements): '', Val (Finite (1 / 2)), Endl],
      err = [], ending = Exit 0\<rparr>"
    by code_simp
  show ?thesis unfolding o by simp
qed

section \<open>Determinism\<close>







section \<open>Where the harnesses leave the specification\<close>

text \<open>
  Claim C3 fails on the code. The selection chain of \<^verbatim>\<open>hw1.cpp\<close> tests for
  \<^verbatim>\<open>avx2\<close>, \<^verbatim>\<open>unroll\<close> and \<^verbatim>\<open>interchange\<close> only. The selector \<^verbatim>\<open>baseline\<close>,
  which the program's own usage text lists, is answered like an unknown one: the error
  message and the usage text on the error stream, exit status 1, and no kernel run.
\<close>

theorem hw1_baseline_selector_rejected:
  "hw1_main fair_env [''hw1'', ''baseline'', ''4''] =
     \<lparr>out = [],
      err = [Str ''Error: Unknown optimization type '', Str apostrophe, Str ''baseline'',
             Str apostrophe, Endl] @ print_usage ''hw1'',
      ending = Exit 1\<rparr>
   \<and> hw1_select ''baseline'' = None
   \<and> hw1_select ''vectorized'' = None
   \<and> hw1_select ''avx2'' = Some Mv_mult_avx2
   \<and> hw1_select ''unroll'' = Some hw1_Mv_mult_unrolled
   \<and> hw1_select ''interchange'' = Some hw1_Mv_mult_interchanged"
proof -
  have "hw1_main fair_env [''hw1'', ''baseline'', ''4''] =
     \<lparr>out = [],
      err = [Str ''Error: Unknown optimization type '', Str apostrophe, Str ''baseline'',
             Str apostrophe, Endl] @ print_usage ''hw1'',
      ending = Exit 1\<rparr>"
    by code_simp
  then show ?thesis by (simp add: hw1_select_def)
qed

text \<open>
  Claim C4 fails on the code. \<^verbatim>\<open>Mv.c\<close> and \<^verbatim>\<open>hw1.cpp\<close> never test the dimension:
  for the argument \<^verbatim>\<open>abc\<close> \<^verbatim>\<open>atoi\<close> yields 0, the run goes on, prints its timing line
  on standard output and then reads \<^verbatim>\<open>C[0]\<close> of an empty buffer; for \<^verbatim>\<open>-5\<close>
  \<^verbatim>\<open>hw1.cpp\<close> ends in the uncaught \<^verbatim>\<open>std::length_error\<close> of \<^verbatim>\<open>B(n)\<close>. The programs of
  \<^verbatim>\<open>proj1/\<close> do reject the argument, as the claim says.
\<close>

theorem Mv_c_accepts_non_numeric_dimension:
  "Mv_c_main fair_env [''Mv'', ''abc''] =
     \<lparr>out = report_line 100 1 0, err = [], ending = Undefined OutOfBounds\<rparr>
   \<and> hw1_main fair_env [''hw1'', ''abc''] =
     \<lparr>out = report_line 100 1 0, err = [], ending = Undefined OutOfBounds\<rparr>
   \<and> hw1_main fair_env [''hw1'', ''-5''] =
     \<lparr>out = [], err = [], ending = Terminate LengthError\<rparr>
   \<and> proj1_main Mv_mult fair_env [''Mv'', ''abc''] =
     \<lparr>out = [], err = [Str ''Matrix size must be a positive integer.'', Endl], ending = Exit 1\<rparr>"
  by code_simp

text \<open>
  Claim C5 fails on the code. \<^verbatim>\<open>CreateMatrix\<close> reports the failed allocation with
  file and line and returns the null pointer, and \<^verbatim>\<open>main\<close> goes on with it: for
  \<open>N = 2\<close> into the write \<^verbatim>\<open>A[0] = ...\<close> of \<^verbatim>\<open>InitMatrix\<close> through the null pointer,
  for \<open>N = 0\<close> (no element is touched) up to the timing line, which it prints.
\<close>

theorem Mv_c_continues_after_failed_allocation:
  "Mv_c_main (fair_env\<lparr>alloc_ok := (\<lambda>k. k \<noteq> 0)\<rparr>) [''Mv'', ''2''] =
     \<lparr>out = [],
      err = [Str ''Matrix allocation failed in file '', Str ''Mv.c'', Str '', line '', IntVal 16, Endl],
      ending = Undefined NullPointer\<rparr>
   \<and> Mv_c_main (fair_env\<lparr>alloc_ok := (\<lambda>k. k \<noteq> 0)\<rparr>) [''Mv'', ''0''] =
     \<lparr>out = report_line 100 1 0,
      err = [Str ''Matrix allocation failed in file '', Str ''Mv.c'', Str '', line '', IntVal 16, Endl],
      ending = Undefined OutOfBounds\<rparr>"
  by code_simp

text \<open>
  Claim C8 fails on the code in the reporting step. For \<open>N = 0\<close> every kernel returns
  the empty vector without touching an element, and the checksum loop of \<^verbatim>\<open>proj1/\<close>
  sums it to 0; but the programs that let \<open>N = 0\<close> through, \<^verbatim>\<open>Mv.c\<close> and
  \<^verbatim>\<open>hw1.cpp\<close>, report \<^verbatim>\<open>C[N/2]\<close>, which is \<^verbatim>\<open>C[0]\<close> of the empty result.
\<close>

theorem report_reads_outside_empty_result:
  "Mv_mult 0 [] [] [] = Inr []
   \<and> Mv_mult_interchanged 0 [] [] [] = Inr []
   \<and> hw1_Mv_mult_interchanged 0 [] [] [] = Inr []
   \<and> MatVecMult (Some []) (Some []) (Some []) 0 0 = Inr (Some [])
   \<and> Mv_mult_unrolled 0 [] [] [] = Inr []
   \<and> hw1_Mv_mult_unrolled 0 [] [] [] = Inr []
   \<and> Mv_mult_optimized 0 [] [] [] = Inr []
   \<and> Mv_mult_avx2 0 [] [] [] = Inr []
   \<and> checksum_loop 0 [] = Inr 0
   \<and> rd [] (c_div 0 2) = Inl OutOfBounds
   \<and> Mv_c_main fair_env [''Mv'', ''0''] =
     \<lparr>out = report_line 100 1 0, err = [], ending = Undefined OutOfBounds\<rparr>
   \<and> hw1_main fair_env [''hw1'', ''0''] =
     \<lparr>out = report_line 100 1 0, err = [], ending = Undefined OutOfBounds\<rparr>
   \<and> hw1_main fair_env [''hw1'', ''unroll'', ''0''] =
     \<lparr>out = report_line 100 1 0, err = [], ending = Undefined OutOfBounds\<rparr>
   \<and> hw1_main fair_env [''hw1'', ''interchange'', ''0''] =
     \<lparr>out = report_line 100 1 0, err = [], ending = Undefined OutOfBounds\<rparr>
   \<and> proj1_main Mv_mult fair_env [''Mv'', ''0''] =
     \<lparr>out = [], err = [Str ''Matrix size must be a positive integer.'', Endl], ending = Exit 1\<rparr>"
  by code_simp

end
